theory Spec2Isabelle
  imports Complex_Main "HOL-Library.Multiset" "HOL-Library.Word"
begin

section \<open>Render commands\<close>

text \<open>
  The embedding follows \<^verbatim>\<open>cocos/renderer/CCRenderer.cpp\<close>. The headers that declare
  \<^verbatim>\<open>RenderCommand\<close> and its subclasses are not part of the sources at hand, so a command
  is one flat record that carries every accessor the renderer calls; the kind tag says
  which of them are meaningful.

  \<^verbatim>\<open>CCASSERT\<close> and \<^verbatim>\<open>CC_ASSERT\<close> are modelled as in a development build: a failed
  assertion aborts, which is the error value \<open>AssertionFailed\<close>. An access the C++
  standard leaves undefined (a vector indexed out of range, \<^verbatim>\<open>top\<close> of an empty stack)
  is the error value \<open>UndefinedBehaviour\<close>.
\<close>

datatype error = AssertionFailed string | UndefinedBehaviour string

text \<open>
  The tags of \<^verbatim>\<open>RenderCommand::Type\<close> that the renderer names.
\<close>

datatype command_type =
    UNKNOWN_COMMAND
  | TRIANGLES_COMMAND
  | GROUP_COMMAND
  | CUSTOM_COMMAND
  | BATCH_COMMAND
  | PRIMITIVE_COMMAND

text \<open>
  The global order is a C \<^verbatim>\<open>float\<close>. The renderer only ever compares two of them with
  \<^verbatim>\<open><\<close> and \<^verbatim>\<open>>\<close>, so an order is either a number or NaN, and every comparison
  with NaN is false. (The two infinities compare like numbers beyond every other one, and
  \<open>-0.0\<close> compares like \<open>0\<close>; the real line has room for both.)
\<close>

datatype cfloat = NaN | Num real

fun float_less :: "cfloat \<Rightarrow> cfloat \<Rightarrow> bool" where
  "float_less (Num a) (Num b) = (a < b)"
| "float_less _ _ = False"

text \<open>
  The ambient GL flags the renderer reads and toggles. A command that submits its own GL
  work (\<^verbatim>\<open>execute()\<close> of a custom, batch or primitive command) may leave them in any
  state, so such a command carries the change it makes as a function; so does
  \<^verbatim>\<open>useMaterial()\<close>, which binds a triangle command's texture, blending and program.
\<close>

record gl_flags =
  DEPTH_TEST :: bool
  CULL_FACE :: bool
  DEPTH_WRITEMASK :: bool
  BLEND :: bool

record render_command =
  getType :: command_type
  getGlobalOrder :: cfloat
  isSkipBatching :: bool
  getMaterialID :: "32 word"
  getVertexCount :: int
  getIndexCount :: int
  getRenderQueueID :: int
  useMaterial :: "gl_flags \<Rightarrow> gl_flags"
  execute :: "gl_flags \<Rightarrow> gl_flags"

text \<open>
  \<^verbatim>\<open>static bool compareRenderCommand(RenderCommand* a, RenderCommand* b)\<close>
\<close>

definition compareRenderCommand :: "render_command \<Rightarrow> render_command \<Rightarrow> bool" where
  "compareRenderCommand a b = float_less (getGlobalOrder a) (getGlobalOrder b)"

section \<open>RenderQueue\<close>

text \<open>
  Modelled from the spec: the enumeration \<^verbatim>\<open>RenderQueue::QUEUE_GROUP\<close> is declared in
  the absent header \<^verbatim>\<open>CCRenderer.h\<close>. The specification lists the five sub-collections
  as NegativeZ, Opaque3D, Transparent3D, ZeroZ, PositiveZ, which is also the order in
  which \<^verbatim>\<open>visitRenderQueue\<close> goes through them; \<open>QUEUE_GROUPS\<close> is the index range
  \<^verbatim>\<open>0 .. QUEUE_COUNT - 1\<close> in that order.
\<close>

datatype QUEUE_GROUP = GLOBALZ_NEG | OPAQUE_3D | TRANSPARENT_3D | GLOBALZ_ZERO | GLOBALZ_POS

definition QUEUE_GROUPS :: "QUEUE_GROUP list" where
  "QUEUE_GROUPS = [GLOBALZ_NEG, OPAQUE_3D, TRANSPARENT_3D, GLOBALZ_ZERO, GLOBALZ_POS]"

text \<open>
  The array \<^verbatim>\<open>_commands[QUEUE_COUNT]\<close> of vectors is a function from the group to its
  vector; the three booleans are the snapshot written by \<^verbatim>\<open>saveRenderState\<close>.
\<close>

record render_queue =
  commands :: "QUEUE_GROUP \<Rightarrow> render_command list"
  isDepthEnabled :: bool
  isCullEnabled :: bool
  isDepthWrite :: bool

definition push_back :: "render_queue \<Rightarrow> render_command \<Rightarrow> render_queue" where
  "push_back q command =
     (let z = getGlobalOrder command in
      if float_less z (Num 0) then
        q\<lparr>commands := (commands q)(GLOBALZ_NEG := commands q GLOBALZ_NEG @ [command])\<rparr>
      else if float_less (Num 0) z then
        q\<lparr>commands := (commands q)(GLOBALZ_POS := commands q GLOBALZ_POS @ [command])\<rparr>
      else
        q\<lparr>commands := (commands q)(GLOBALZ_ZERO := commands q GLOBALZ_ZERO @ [command])\<rparr>)"

fun size_loop :: "QUEUE_GROUP list \<Rightarrow> render_queue \<Rightarrow> int \<Rightarrow> int" where
  "size_loop [] q result = result"
| "size_loop (g # gs) q result = size_loop gs q (result + int (length (commands q g)))"

definition queue_size :: "render_queue \<Rightarrow> int" where
  "queue_size q = size_loop QUEUE_GROUPS q 0"

text \<open>
  \<^verbatim>\<open>std::sort\<close> belongs to the C++ library, not to this repository, so
  \<^verbatim>\<open>RenderQueue::sort\<close> takes it as a parameter \<open>srt\<close>. What the standard promises of it
  is \<open>std_sort_contract\<close>: when the comparison is a strict weak ordering on the
  elements (for \<open>compareRenderCommand\<close>: when no order is NaN), the result is a
  rearrangement of the input in which no element is less than one before it. It promises
  nothing about the relative order of equivalent elements.
\<close>

definition not_nan :: "render_command list \<Rightarrow> bool" where
  "not_nan xs = list_all (\<lambda>c. getGlobalOrder c \<noteq> NaN) xs"

definition std_sort_contract ::
  "((render_command \<Rightarrow> render_command \<Rightarrow> bool) \<Rightarrow> render_command list \<Rightarrow> render_command list) \<Rightarrow> bool"
where
  "std_sort_contract srt =
     (\<forall>xs. not_nan xs \<longrightarrow>
        mset (srt compareRenderCommand xs) = mset xs \<and>
        sorted_wrt (\<lambda>a b. \<not> compareRenderCommand b a) (srt compareRenderCommand xs))"

definition sort_queue ::
  "((render_command \<Rightarrow> render_command \<Rightarrow> bool) \<Rightarrow> render_command list \<Rightarrow> render_command list)
    \<Rightarrow> render_queue \<Rightarrow> render_queue"
where
  "sort_queue srt q =
     (let c1 = (commands q)(GLOBALZ_NEG := srt compareRenderCommand (commands q GLOBALZ_NEG));
          c2 = c1(GLOBALZ_POS := srt compareRenderCommand (c1 GLOBALZ_POS))
      in q\<lparr>commands := c2\<rparr>)"

text \<open>
  \<^verbatim>\<open>RenderQueue::operator[]\<close>: the index is a signed \<^verbatim>\<open>ssize_t\<close>. A negative index
  passes the test \<^verbatim>\<open>index < size\<close> and reads in front of the first vector, which is
  undefined; an index past the last command reaches \<^verbatim>\<open>CCASSERT(false, ...)\<close>.
\<close>

fun at_loop :: "QUEUE_GROUP list \<Rightarrow> render_queue \<Rightarrow> int \<Rightarrow> error + render_command" where
  "at_loop [] q index = Inl (AssertionFailed ''invalid index'')"
| "at_loop (g # gs) q index =
     (if index < int (length (commands q g)) then
        (if index < 0 then Inl (UndefinedBehaviour ''negative index'')
         else Inr (commands q g ! nat index))
      else at_loop gs q (index - int (length (commands q g))))"

definition queue_at :: "render_queue \<Rightarrow> int \<Rightarrow> error + render_command" where
  "queue_at q index = at_loop QUEUE_GROUPS q index"

definition clear_queue :: "render_queue \<Rightarrow> render_queue" where
  "clear_queue q = q\<lparr>commands := (\<lambda>g. [])\<rparr>"

definition saveRenderState :: "gl_flags \<Rightarrow> render_queue \<Rightarrow> render_queue" where
  "saveRenderState gl q =
     q\<lparr>isDepthEnabled := DEPTH_TEST gl, isCullEnabled := CULL_FACE gl,
       isDepthWrite := DEPTH_WRITEMASK gl\<rparr>"

definition restoreRenderState :: "render_queue \<Rightarrow> gl_flags \<Rightarrow> gl_flags" where
  "restoreRenderState q gl =
     gl\<lparr>CULL_FACE := isCullEnabled q, DEPTH_TEST := isDepthEnabled q,
        DEPTH_WRITEMASK := isDepthWrite q\<rparr>"

text \<open>A default-constructed queue; the snapshot fields are not initialised by the constructor.\<close>

definition new_queue :: "bool \<Rightarrow> bool \<Rightarrow> bool \<Rightarrow> render_queue" where
  "new_queue d c w =
     \<lparr>commands = (\<lambda>g. []), isDepthEnabled = d, isCullEnabled = c, isDepthWrite = w\<rparr>"


section \<open>Renderer\<close>

text \<open>
  Modelled from the spec: \<^verbatim>\<open>VBO_SIZE\<close> and \<^verbatim>\<open>INDEX_VBO_SIZE\<close>, the fixed capacities
  of the two staging arrays, are constants of the absent header; they are parameters here.
\<close>

record limits =
  VBO_SIZE :: int
  INDEX_VBO_SIZE :: int

text \<open>One entry of the array \<^verbatim>\<open>_triBatchesToDraw\<close>; \<open>cmd\<close> is a pointer and may be null.\<close>

record tri_batch =
  offset :: int
  indicesToDraw :: int
  cmd :: "render_command option"

text \<open>
  What reaches the GL backend, in order: the upload of the filled part of the staging
  arrays (\<^verbatim>\<open>glBufferData\<close>, with the vertex and index counts it is sized by; both
  configuration branches of the source upload the same counts), a draw call
  (\<^verbatim>\<open>glDrawElements\<close> after \<^verbatim>\<open>useMaterial\<close> of the batch's command, with the index
  count and the byte offset), and a command's own submission (\<^verbatim>\<open>execute()\<close>).
\<close>

datatype gl_event =
    BufferData int int
  | DrawElements render_command int int
  | Execute render_command

text \<open>
  A slot of the index array \<^verbatim>\<open>_indices\<close>. The index lists of the triangle commands are
  not part of the sources at hand, so a slot that \<^verbatim>\<open>fillVerticesAndIndices\<close> has written
  is identified by the command it was copied from and the position \<open>i\<close> in that
  command's index list (the C++ stores \<^verbatim>\<open>_filledVertex + indices[i]\<close> there); a slot never
  written is \<open>None\<close>.
\<close>

type_synonym index_slot = "(render_command \<times> int) option"

text \<open>
  What the GL backend is made to draw, in order: \<^verbatim>\<open>glDrawElements\<close> with a count and an
  offset draws the slots of that range of the element buffer, one after the other, and
  \<^verbatim>\<open>execute()\<close> draws whatever the command submits.
\<close>

datatype painted = Drawn index_slot | Executed render_command

definition index_range :: "int \<Rightarrow> int \<Rightarrow> int list" where
  "index_range start n = map (\<lambda>i. start + int i) [0..<nat n]"

text \<open>
  The renderer's members that the modelled functions touch, the ambient GL flags and the
  log of GL work. The vertex staging array \<^verbatim>\<open>_verts\<close> is present through its fill
  counter only: its contents (floating-point vertex data) play no part in where a batch
  begins or ends. The index staging array \<^verbatim>\<open>_indices\<close> is a function from the position
  to the slot, \<open>elementBuffer\<close> is the copy of it that \<^verbatim>\<open>glBufferData\<close> last made on
  the GL side, and \<open>rendered\<close> is what has been drawn so far.
  \<^verbatim>\<open>_triBatchesToDraw\<close> is a C array that the source enlarges with \<^verbatim>\<open>realloc\<close> before
  it can overflow; it is a function from the index to the entry, and the capacity
  bookkeeping is left out.
\<close>

record renderer =
  renderGroups :: "render_queue list"
  commandGroupStack :: "int list"
  isRendering :: bool
  glViewAssigned :: bool
  isDepthTestFor2D :: bool
  queuedTriangleCommands :: "render_command list"
  filledVertex :: int
  filledIndex :: int
  triBatchesToDraw :: "nat \<Rightarrow> tri_batch"
  drawnBatches :: int
  drawnVertices :: int
  gl :: gl_flags
  glCalls :: "gl_event list"
  errorLog :: "string list"
  indices :: "int \<Rightarrow> index_slot"
  elementBuffer :: "int \<Rightarrow> index_slot"
  rendered :: "painted list"

subsection \<open>Queue table and group stack\<close>

definition addCommand_to :: "renderer \<Rightarrow> render_command \<Rightarrow> int \<Rightarrow> error + renderer" where
  "addCommand_to r command renderQueue =
     (if isRendering r then Inl (AssertionFailed ''Cannot add command while rendering'')
      else if \<not> renderQueue \<ge> 0 then Inl (AssertionFailed ''Invalid render queue'')
      else if \<not> getType command \<noteq> UNKNOWN_COMMAND then Inl (AssertionFailed ''Invalid Command Type'')
      else if \<not> nat renderQueue < length (renderGroups r) then
        Inl (UndefinedBehaviour ''_renderGroups[renderQueue]'')
      else Inr (r\<lparr>renderGroups :=
                  (renderGroups r)[nat renderQueue :=
                     push_back (renderGroups r ! nat renderQueue) command]\<rparr>))"

text \<open>The stack is a list whose head is the top.\<close>

definition addCommand :: "renderer \<Rightarrow> render_command \<Rightarrow> error + renderer" where
  "addCommand r command =
     (case commandGroupStack r of
        [] \<Rightarrow> Inl (UndefinedBehaviour ''_commandGroupStack.top()'')
      | renderQueue # _ \<Rightarrow> addCommand_to r command renderQueue)"

definition pushGroup :: "renderer \<Rightarrow> int \<Rightarrow> error + renderer" where
  "pushGroup r renderQueueID =
     (if isRendering r then Inl (AssertionFailed ''Cannot change render queue while rendering'')
      else Inr (r\<lparr>commandGroupStack := renderQueueID # commandGroupStack r\<rparr>))"

definition popGroup :: "renderer \<Rightarrow> error + renderer" where
  "popGroup r =
     (if isRendering r then Inl (AssertionFailed ''Cannot change render queue while rendering'')
      else case commandGroupStack r of
        [] \<Rightarrow> Inl (UndefinedBehaviour ''_commandGroupStack.pop()'')
      | _ # rest \<Rightarrow> Inr (r\<lparr>commandGroupStack := rest\<rparr>))"

text \<open>
  \<^verbatim>\<open>createRenderQueue\<close> appends a default-constructed queue, whose snapshot members hold
  whatever was in memory (the argument \<open>junk\<close>), and returns the new size minus one.
\<close>

definition createRenderQueue :: "bool \<times> bool \<times> bool \<Rightarrow> renderer \<Rightarrow> int \<times> renderer" where
  "createRenderQueue junk r =
     (let newRenderQueue = new_queue (fst junk) (fst (snd junk)) (snd (snd junk));
          r' = r\<lparr>renderGroups := renderGroups r @ [newRenderQueue]\<rparr>
      in (int (length (renderGroups r')) - 1, r'))"

subsection \<open>Triangle batcher\<close>

text \<open>
  \<^verbatim>\<open>fillVerticesAndIndices\<close>: the loop
  \<^verbatim>\<open>for (i = 0; i < cmd->getIndexCount(); ++i) _indices[_filledIndex + i] = ...\<close> writes the
  slots from \<^verbatim>\<open>_filledIndex\<close> on, one per index of the command, and the two counters
  advance by the counts of the command.
\<close>

definition fillVerticesAndIndices :: "renderer \<Rightarrow> render_command \<Rightarrow> renderer" where
  "fillVerticesAndIndices r c =
     r\<lparr>indices :=
         (\<lambda>k. if filledIndex r \<le> k \<and> k < filledIndex r + getIndexCount c
              then Some (c, k - filledIndex r) else indices r k),
       filledVertex := filledVertex r + getVertexCount c,
       filledIndex := filledIndex r + getIndexCount c\<rparr>"

text \<open>
  The locals of the scan in \<^verbatim>\<open>drawBatchedTriangles\<close>, next to the renderer.
  \<^verbatim>\<open>prevMaterialID\<close> is an \<^verbatim>\<open>int\<close> that starts at \<open>-1\<close> and is compared with, and
  assigned from, the material identifier of the command; the identifier is taken to be as
  wide as that \<^verbatim>\<open>int\<close>, so both are 32-bit words and \<open>-1\<close> is the word of all ones.
\<close>

record batch_pass =
  pass_renderer :: renderer
  batchesTotal :: nat
  prevMaterialID :: "32 word"
  firstCommand :: bool

definition batch_step :: "batch_pass \<Rightarrow> render_command \<Rightarrow> error + batch_pass" where
  "batch_step s c =
     (let currentMaterialID = getMaterialID c;
          batchable = (\<not> isSkipBatching c);
          r = fillVerticesAndIndices (pass_renderer s) c;
          tb = triBatchesToDraw r;
          n = batchesTotal s
      in
      if batchable \<and> (prevMaterialID s = currentMaterialID \<or> firstCommand s) then
        (if firstCommand s then
           Inr (s\<lparr>pass_renderer := r\<lparr>triBatchesToDraw :=
                      tb(n := (tb n)\<lparr>indicesToDraw := indicesToDraw (tb n) + getIndexCount c,
                                     cmd := Some c\<rparr>)\<rparr>,
                   prevMaterialID := currentMaterialID, firstCommand := False\<rparr>)
         else case cmd (tb n) of
           None \<Rightarrow> Inl (UndefinedBehaviour ''_triBatchesToDraw[batchesTotal].cmd is null'')
         | Some b \<Rightarrow>
             if getMaterialID b = getMaterialID c then
               Inr (s\<lparr>pass_renderer := r\<lparr>triBatchesToDraw :=
                          tb(n := (tb n)\<lparr>indicesToDraw := indicesToDraw (tb n) + getIndexCount c,
                                         cmd := Some c\<rparr>)\<rparr>,
                       prevMaterialID := currentMaterialID, firstCommand := False\<rparr>)
             else Inl (AssertionFailed ''argh... error in logic''))
      else
        (let n' = (if \<not> firstCommand s then n + 1 else n);
             tb1 = (if \<not> firstCommand s
                    then tb(n + 1 := (tb (n + 1))\<lparr>offset := offset (tb n) + indicesToDraw (tb n)\<rparr>)
                    else tb);
             tb2 = tb1(n' := (tb1 n')\<lparr>cmd := Some c, indicesToDraw := getIndexCount c\<rparr>);
             currentMaterialID' = (if \<not> batchable then - 1 else currentMaterialID)
         in Inr (s\<lparr>pass_renderer := r\<lparr>triBatchesToDraw := tb2\<rparr>, batchesTotal := n',
                    prevMaterialID := currentMaterialID', firstCommand := False\<rparr>)))"

fun batch_loop :: "render_command list \<Rightarrow> batch_pass \<Rightarrow> error + batch_pass" where
  "batch_loop [] s = Inr s"
| "batch_loop (c # cs) s =
     (case batch_step s c of Inl e \<Rightarrow> Inl e | Inr s' \<Rightarrow> batch_loop cs s')"

text \<open>
  Part 3 of \<^verbatim>\<open>drawBatchedTriangles\<close>: one draw call per entry below \<^verbatim>\<open>batchesTotal\<close>.
  \<^verbatim>\<open>glDrawElements\<close> with the count \<^verbatim>\<open>indicesToDraw\<close> and the byte offset
  \<^verbatim>\<open>offset * sizeof(_indices[0])\<close> draws the slots \<open>offset, ..., offset + indicesToDraw - 1\<close>
  of the element buffer (none when the count is not positive).
\<close>

fun draw_loop :: "tri_batch list \<Rightarrow> renderer \<Rightarrow> error + renderer" where
  "draw_loop [] r = Inr r"
| "draw_loop (b # bs) r =
     (case cmd b of
        None \<Rightarrow> Inl (AssertionFailed ''Invalid batch'')
      | Some c \<Rightarrow>
          draw_loop bs
            (r\<lparr>gl := useMaterial c (gl r),
               glCalls := glCalls r @ [DrawElements c (indicesToDraw b) (offset b * 2)],
               rendered := rendered r @
                 map (\<lambda>k. Drawn (elementBuffer r k)) (index_range (offset b) (indicesToDraw b)),
               drawnBatches := drawnBatches r + 1,
               drawnVertices := drawnVertices r + indicesToDraw b\<rparr>))"

text \<open>
  \<^verbatim>\<open>drawBatchedTriangles\<close>: the scan over the staged commands (part 1), the upload
  (part 2), the draw calls (part 3) and the clean-up (part 4). In both configuration
  branches of part 2,
  \<^verbatim>\<open>glBufferData(GL_ELEMENT_ARRAY_BUFFER, sizeof(_indices[0]) * _filledIndex, _indices, ...)\<close>
  copies the first \<^verbatim>\<open>_filledIndex\<close> slots of the index array into the element buffer.
\<close>

definition drawBatchedTriangles :: "renderer \<Rightarrow> error + renderer" where
  "drawBatchedTriangles r =
     (if queuedTriangleCommands r = [] then Inr r
      else
        let r0 = r\<lparr>filledVertex := 0, filledIndex := 0,
                   triBatchesToDraw :=
                     (triBatchesToDraw r)(0 := \<lparr>offset = 0, indicesToDraw = 0, cmd = None\<rparr>)\<rparr>
        in case batch_loop (queuedTriangleCommands r0)
                  \<lparr>pass_renderer = r0, batchesTotal = 0, prevMaterialID = - 1,
                   firstCommand = True\<rparr> of
             Inl e \<Rightarrow> Inl e
           | Inr s \<Rightarrow>
               (let r1 = pass_renderer s;
                    total = batchesTotal s + 1;
                    r2 = r1\<lparr>glCalls := glCalls r1 @ [BufferData (filledVertex r1) (filledIndex r1)],
                            elementBuffer :=
                              (\<lambda>k. if 0 \<le> k \<and> k < filledIndex r1 then indices r1 k else None)\<rparr>
                in case draw_loop (map (triBatchesToDraw r2) [0..<total]) r2 of
                     Inl e \<Rightarrow> Inl e
                   | Inr r3 \<Rightarrow>
                       Inr (r3\<lparr>queuedTriangleCommands := [], filledVertex := 0,
                               filledIndex := 0\<rparr>)))"

text \<open>\<^verbatim>\<open>flush\<close> is \<^verbatim>\<open>flush2D\<close>, which is \<^verbatim>\<open>flushTriangles\<close>, which is \<^verbatim>\<open>drawBatchedTriangles\<close>.\<close>

definition flush :: "renderer \<Rightarrow> error + renderer" where
  "flush r = drawBatchedTriangles r"


subsection \<open>Dispatch and sweep\<close>

text \<open>
  A sweep can call itself through a group command, and a queue that (directly or not)
  contains a group command for itself makes the C++ recurse without end. The sweep
  therefore counts its nesting down from a given depth; \<open>None\<close> says that the depth was
  not enough. A result is \<open>Some (Inl e)\<close> for an abort and \<open>Some (Inr r)\<close> for a
  return with the renderer \<open>r\<close>.
\<close>

type_synonym outcome = "(error + renderer) option"

definition and_then :: "outcome \<Rightarrow> (renderer \<Rightarrow> outcome) \<Rightarrow> outcome" where
  "and_then x f = (case x of None \<Rightarrow> None | Some (Inl e) \<Rightarrow> Some (Inl e) | Some (Inr r) \<Rightarrow> f r)"

text \<open>The three statements after \<^verbatim>\<open>// queue it\<close>.\<close>

definition queue_it :: "renderer \<Rightarrow> render_command \<Rightarrow> renderer" where
  "queue_it r c =
     r\<lparr>queuedTriangleCommands := queuedTriangleCommands r @ [c],
       filledIndex := filledIndex r + getIndexCount c,
       filledVertex := filledVertex r + getVertexCount c\<rparr>"

definition run_execute :: "renderer \<Rightarrow> render_command \<Rightarrow> renderer" where
  "run_execute r c =
     r\<lparr>gl := execute c (gl r), glCalls := glCalls r @ [Execute c],
       rendered := rendered r @ [Executed c]\<rparr>"

text \<open>
  \<^verbatim>\<open>processRenderCommand\<close>; the argument \<open>visit\<close> stands for the call of
  \<^verbatim>\<open>visitRenderQueue(_renderGroups[renderQueueID])\<close>, and a null pointer is \<open>None\<close>.
\<close>

definition processRenderCommand ::
  "limits \<Rightarrow> (renderer \<Rightarrow> int \<Rightarrow> outcome) \<Rightarrow> renderer \<Rightarrow> render_command option \<Rightarrow> outcome"
where
  "processRenderCommand caps visit r command =
     (case command of
        None \<Rightarrow> Some (Inl (AssertionFailed ''Renderer::processRenderCommand:command should not null''))
      | Some c \<Rightarrow>
          if getType c = TRIANGLES_COMMAND then
            (if filledVertex r + getVertexCount c > VBO_SIZE caps
                \<or> filledIndex r + getIndexCount c > INDEX_VBO_SIZE caps
             then
               (if \<not> (getVertexCount c \<ge> 0 \<and> getVertexCount c < VBO_SIZE caps) then
                  Some (Inl (AssertionFailed ''VBO for vertex is not big enough''))
                else if \<not> (getIndexCount c \<ge> 0 \<and> getIndexCount c < INDEX_VBO_SIZE caps) then
                  Some (Inl (AssertionFailed ''VBO for index is not big enough''))
                else and_then (Some (drawBatchedTriangles r)) (\<lambda>r'. Some (Inr (queue_it r' c))))
             else Some (Inr (queue_it r c)))
          else if getType c = GROUP_COMMAND then
            and_then (Some (flush r)) (\<lambda>r'. visit r' (getRenderQueueID c))
          else if getType c = CUSTOM_COMMAND then
            and_then (Some (flush r)) (\<lambda>r'. Some (Inr (run_execute r' c)))
          else if getType c = BATCH_COMMAND then
            and_then (Some (flush r)) (\<lambda>r'. Some (Inr (run_execute r' c)))
          else if getType c = PRIMITIVE_COMMAND then
            and_then (Some (flush r)) (\<lambda>r'. Some (Inr (run_execute r' c)))
          else
            Some (Inr (r\<lparr>errorLog := errorLog r @ [''Unknown commands in renderQueue'']\<rparr>)))"

text \<open>The loop \<^verbatim>\<open>for (auto it = sub.cbegin(); it != sub.cend(); ++it) processRenderCommand(*it);\<close>\<close>

fun process_all ::
  "(renderer \<Rightarrow> render_command option \<Rightarrow> outcome) \<Rightarrow> render_command list \<Rightarrow> renderer \<Rightarrow> outcome"
where
  "process_all p [] r = Some (Inr r)"
| "process_all p (c # cs) r = and_then (p r (Some c)) (process_all p cs)"

text \<open>The GL state that \<^verbatim>\<open>visitRenderQueue\<close> sets before it goes through a group.\<close>

fun group_state :: "QUEUE_GROUP \<Rightarrow> bool \<Rightarrow> gl_flags \<Rightarrow> gl_flags" where
  "group_state OPAQUE_3D d2 f =
     f\<lparr>DEPTH_TEST := True, DEPTH_WRITEMASK := True, BLEND := False, CULL_FACE := True\<rparr>"
| "group_state TRANSPARENT_3D d2 f =
     f\<lparr>DEPTH_TEST := True, DEPTH_WRITEMASK := False, BLEND := True, CULL_FACE := True\<rparr>"
| "group_state g d2 f =
     (if d2 then f\<lparr>DEPTH_TEST := True, DEPTH_WRITEMASK := True, BLEND := True, CULL_FACE := False\<rparr>
      else f\<lparr>DEPTH_TEST := False, DEPTH_WRITEMASK := False, BLEND := True, CULL_FACE := False\<rparr>)"

text \<open>One of the five blocks of \<^verbatim>\<open>visitRenderQueue\<close>, for the queue at index \<open>i\<close>.\<close>

definition visit_group ::
  "(renderer \<Rightarrow> render_command option \<Rightarrow> outcome) \<Rightarrow> QUEUE_GROUP \<Rightarrow> nat \<Rightarrow> renderer \<Rightarrow> outcome"
where
  "visit_group p g i r =
     (let sub = commands (renderGroups r ! i) g in
      if length sub > 0 then
        and_then (process_all p sub (r\<lparr>gl := group_state g (isDepthTestFor2D r) (gl r)\<rparr>))
          (\<lambda>r'. Some (flush r'))
      else Some (Inr r))"

text \<open>
  The body of \<^verbatim>\<open>visitRenderQueue\<close>. The C++ receives a reference
  \<^verbatim>\<open>_renderGroups[id]\<close>; the model receives the index and makes the range check of that
  index expression first.
\<close>

definition visit_body ::
  "(renderer \<Rightarrow> render_command option \<Rightarrow> outcome) \<Rightarrow> renderer \<Rightarrow> int \<Rightarrow> outcome"
where
  "visit_body p r qid =
     (if \<not> (0 \<le> qid \<and> nat qid < length (renderGroups r)) then
        Some (Inl (UndefinedBehaviour ''_renderGroups[id]''))
      else
        let i = nat qid;
            r0 = r\<lparr>renderGroups := (renderGroups r)[i := saveRenderState (gl r) (renderGroups r ! i)]\<rparr>
        in
        and_then (visit_group p GLOBALZ_NEG i r0) (\<lambda>r1.
        and_then (visit_group p OPAQUE_3D i r1) (\<lambda>r2.
        and_then (visit_group p TRANSPARENT_3D i r2) (\<lambda>r3.
        and_then (visit_group p GLOBALZ_ZERO i r3) (\<lambda>r4.
        and_then (visit_group p GLOBALZ_POS i r4) (\<lambda>r5.
          Some (Inr (r5\<lparr>gl := restoreRenderState (renderGroups r5 ! i) (gl r5)\<rparr>))))))))"

primrec visitRenderQueue :: "nat \<Rightarrow> limits \<Rightarrow> renderer \<Rightarrow> int \<Rightarrow> outcome" where
  "visitRenderQueue 0 caps = (\<lambda>r qid. None)"
| "visitRenderQueue (Suc depth) caps =
     visit_body (processRenderCommand caps (visitRenderQueue depth caps))"

definition clean :: "renderer \<Rightarrow> renderer" where
  "clean r =
     r\<lparr>renderGroups := map clear_queue (renderGroups r),
       queuedTriangleCommands := [], filledVertex := 0, filledIndex := 0\<rparr>"

definition render ::
  "nat \<Rightarrow> ((render_command \<Rightarrow> render_command \<Rightarrow> bool) \<Rightarrow> render_command list \<Rightarrow> render_command list)
     \<Rightarrow> limits \<Rightarrow> renderer \<Rightarrow> outcome"
where
  "render depth srt caps r =
     (let r1 = r\<lparr>isRendering := True\<rparr> in
      and_then
        (if glViewAssigned r1 then
           visitRenderQueue depth caps
             (r1\<lparr>renderGroups := map (sort_queue srt) (renderGroups r1)\<rparr>) 0
         else Some (Inr r1))
        (\<lambda>r2. Some (Inr ((clean r2)\<lparr>isRendering := False\<rparr>))))"


section \<open>The batching rule in the words of the specification\<close>

text \<open>
  The specification's rule for the scan, written down independently of the code: a
  command joins the batch of its predecessor when neither of the two is flagged
  skip-batching and their material identifiers are equal; otherwise it opens a new
  batch at the running index offset. \<open>spec_scan\<close> carries the finished batches, the
  current batch and the predecessor; \<open>spec_batches\<close> is the list of batches for a list
  of staged commands.
\<close>

definition joins :: "render_command \<Rightarrow> render_command \<Rightarrow> bool" where
  "joins p c =
     (\<not> isSkipBatching c \<and> \<not> isSkipBatching p \<and> getMaterialID c = getMaterialID p)"

fun spec_scan ::
  "tri_batch list \<Rightarrow> tri_batch \<Rightarrow> render_command \<Rightarrow> render_command list \<Rightarrow> tri_batch list"
where
  "spec_scan finished b p [] = finished @ [b]"
| "spec_scan finished b p (c # cs) =
     (if joins p c then
        spec_scan finished (b\<lparr>indicesToDraw := indicesToDraw b + getIndexCount c, cmd := Some c\<rparr>) c cs
      else
        spec_scan (finished @ [b])
          \<lparr>offset = offset b + indicesToDraw b, indicesToDraw = getIndexCount c, cmd = Some c\<rparr> c cs)"

fun spec_batches :: "render_command list \<Rightarrow> tri_batch list" where
  "spec_batches [] = []"
| "spec_batches (c # cs) =
     spec_scan [] \<lparr>offset = 0, indicesToDraw = getIndexCount c, cmd = Some c\<rparr> c cs"

section \<open>Calls of the public interface\<close>

text \<open>
  Seen from outside, the lifetime of a renderer is a sequence of calls of its public
  functions. \<open>api_step\<close> is one such call; it is \<open>None\<close> when the call aborts or does
  not return.
\<close>

datatype api_call =
    AddCommand render_command
  | AddCommandTo render_command int
  | PushGroup int
  | PopGroup
  | CreateRenderQueue "bool \<times> bool \<times> bool"
  | Render nat

fun api_step ::
  "((render_command \<Rightarrow> render_command \<Rightarrow> bool) \<Rightarrow> render_command list \<Rightarrow> render_command list)
     \<Rightarrow> limits \<Rightarrow> renderer \<Rightarrow> api_call \<Rightarrow> renderer option"
where
  "api_step srt caps r (AddCommand c) = (case addCommand r c of Inl e \<Rightarrow> None | Inr r' \<Rightarrow> Some r')"
| "api_step srt caps r (AddCommandTo c q) =
     (case addCommand_to r c q of Inl e \<Rightarrow> None | Inr r' \<Rightarrow> Some r')"
| "api_step srt caps r (PushGroup q) = (case pushGroup r q of Inl e \<Rightarrow> None | Inr r' \<Rightarrow> Some r')"
| "api_step srt caps r PopGroup = (case popGroup r of Inl e \<Rightarrow> None | Inr r' \<Rightarrow> Some r')"
| "api_step srt caps r (CreateRenderQueue junk) = Some (snd (createRenderQueue junk r))"
| "api_step srt caps r (Render depth) =
     (case render depth srt caps r of Some (Inr r') \<Rightarrow> Some r' | _ \<Rightarrow> None)"

fun api_run ::
  "((render_command \<Rightarrow> render_command \<Rightarrow> bool) \<Rightarrow> render_command list \<Rightarrow> render_command list)
     \<Rightarrow> limits \<Rightarrow> renderer \<Rightarrow> api_call list \<Rightarrow> renderer option"
where
  "api_run srt caps r [] = Some r"
| "api_run srt caps r (call # calls) =
     (case api_step srt caps r call of None \<Rightarrow> None | Some r' \<Rightarrow> api_run srt caps r' calls)"

section \<open>The sort of the GNU C++ library\<close>

text \<open>
  \<^verbatim>\<open>std::sort\<close> is not part of the repository; what the program does with commands
  of equal global order is decided by the C++ library it is built with. This section
  models the \<^verbatim>\<open>std::sort\<close> of the GNU library (libstdc++, \<^verbatim>\<open>bits/stl_algo.h\<close> and
  \<^verbatim>\<open>bits/stl_heap.h\<close>), function by function: an introspective sort, that is a quicksort
  down to ranges of at most 16 elements, with a heap sort when the recursion gets deeper
  than twice the binary logarithm of the length, followed by one insertion sort over
  the whole range. A range \<^verbatim>\<open>[first, last)\<close> of iterators is a pair of positions in the
  list (\<open>lst\<close> stands for the library's \<^verbatim>\<open>last\<close>); every scan that the library leaves
  unguarded stops at the ends of the list here.
\<close>

definition iter_swap :: "nat \<Rightarrow> nat \<Rightarrow> 'a list \<Rightarrow> 'a list" where
  "iter_swap a b xs = (xs[a := xs ! b])[b := xs ! a]"

text \<open>\<^verbatim>\<open>std::__lg\<close>, the binary logarithm rounded down.\<close>

fun lg :: "nat \<Rightarrow> nat" where
  "lg n = (if n < 2 then 0 else Suc (lg (n div 2)))"

declare lg.simps [simp del]

text \<open>\<^verbatim>\<open>std::__move_median_to_first(result, a, b, c, comp)\<close>\<close>

definition move_median_to_first ::
  "('a \<Rightarrow> 'a \<Rightarrow> bool) \<Rightarrow> nat \<Rightarrow> nat \<Rightarrow> nat \<Rightarrow> nat \<Rightarrow> 'a list \<Rightarrow> 'a list"
where
  "move_median_to_first lt result a b c xs =
     (if lt (xs ! a) (xs ! b) then
        (if lt (xs ! b) (xs ! c) then iter_swap result b xs
         else if lt (xs ! a) (xs ! c) then iter_swap result c xs
         else iter_swap result a xs)
      else if lt (xs ! a) (xs ! c) then iter_swap result a xs
      else if lt (xs ! b) (xs ! c) then iter_swap result c xs
      else iter_swap result b xs)"

text \<open>
  The two inner scans of \<^verbatim>\<open>std::__unguarded_partition\<close>:
  \<^verbatim>\<open>while (comp(first, pivot)) ++first;\<close> and \<^verbatim>\<open>while (comp(pivot, last)) --last;\<close>
\<close>

function find_not_less :: "('a \<Rightarrow> 'a \<Rightarrow> bool) \<Rightarrow> 'a list \<Rightarrow> nat \<Rightarrow> nat \<Rightarrow> nat" where
  "find_not_less lt xs pivot first =
     (if first < length xs \<and> lt (xs ! first) (xs ! pivot)
      then find_not_less lt xs pivot (Suc first) else first)"
  by pat_completeness auto

termination
  by (relation "measure (\<lambda>(lt, xs, pivot, first). length xs - first)") auto

declare find_not_less.simps [simp del]

function find_not_greater :: "('a \<Rightarrow> 'a \<Rightarrow> bool) \<Rightarrow> 'a list \<Rightarrow> nat \<Rightarrow> nat \<Rightarrow> nat" where
  "find_not_greater lt xs pivot lst =
     (if 0 < lst \<and> lt (xs ! pivot) (xs ! lst)
      then find_not_greater lt xs pivot (lst - 1) else lst)"
  by pat_completeness auto

termination
  by (relation "measure (\<lambda>(lt, xs, pivot, lst). lst)") auto

declare find_not_greater.simps [simp del]

text \<open>\<^verbatim>\<open>std::__unguarded_partition(first, last, pivot, comp)\<close>; the result is the cut and the list.\<close>

function unguarded_partition ::
  "('a \<Rightarrow> 'a \<Rightarrow> bool) \<Rightarrow> nat \<Rightarrow> nat \<Rightarrow> nat \<Rightarrow> 'a list \<Rightarrow> nat \<times> 'a list"
where
  "unguarded_partition lt first lst pivot xs =
     (let first' = find_not_less lt xs pivot first;
          lst' = find_not_greater lt xs pivot (lst - 1)
      in if \<not> first' < lst' then (first', xs)
         else unguarded_partition lt (Suc first') lst' pivot (iter_swap first' lst' xs))"
  by pat_completeness auto

termination
proof (relation "measure (\<lambda>(lt, first, lst, pivot, xs). lst - first)", goal_cases)
  case 1
  show ?case by simp
next
  case (2 lt first lst pivot xs first' lst')
  have up: "a \<le> find_not_less lt xs pivot a" for a
  proof (induction lt xs pivot a rule: find_not_less.induct)
    case (1 lt xs pivot first)
    then show ?case by (subst find_not_less.simps) (auto simp: Suc_leD)
  qed
  have down: "find_not_greater lt xs pivot b \<le> b" for b
  proof (induction lt xs pivot b rule: find_not_greater.induct)
    case (1 lt xs pivot lst)
    then show ?case by (subst find_not_greater.simps) (auto intro: le_trans)
  qed
  have "first \<le> first'" using 2(1) up by simp
  moreover have "lst' \<le> lst - 1" using 2(2) down by simp
  ultimately show ?case using 2(3) by simp
qed

declare unguarded_partition.simps [simp del]

text \<open>\<^verbatim>\<open>std::__unguarded_partition_pivot(first, last, comp)\<close>\<close>

definition unguarded_partition_pivot ::
  "('a \<Rightarrow> 'a \<Rightarrow> bool) \<Rightarrow> nat \<Rightarrow> nat \<Rightarrow> 'a list \<Rightarrow> nat \<times> 'a list"
where
  "unguarded_partition_pivot lt first lst xs =
     (let mid = first + (lst - first) div 2 in
      unguarded_partition lt (first + 1) lst first
        (move_median_to_first lt first (first + 1) mid (lst - 1) xs))"

text \<open>
  The heap functions of \<^verbatim>\<open>bits/stl_heap.h\<close>, on the range that starts at \<open>first\<close>:
  \<^verbatim>\<open>__push_heap\<close>, the loop of \<^verbatim>\<open>__adjust_heap\<close> and \<^verbatim>\<open>__adjust_heap\<close> itself,
  \<^verbatim>\<open>__pop_heap\<close>, \<^verbatim>\<open>__make_heap\<close> and \<^verbatim>\<open>__sort_heap\<close>.
\<close>

function push_heap ::
  "('a \<Rightarrow> 'a \<Rightarrow> bool) \<Rightarrow> nat \<Rightarrow> nat \<Rightarrow> nat \<Rightarrow> 'a \<Rightarrow> 'a list \<Rightarrow> 'a list"
where
  "push_heap lt first holeIndex topIndex val xs =
     (let parent = (holeIndex - 1) div 2 in
      if holeIndex > topIndex \<and> lt (xs ! (first + parent)) val
      then push_heap lt first parent topIndex val (xs[first + holeIndex := xs ! (first + parent)])
      else xs[first + holeIndex := val])"
  by pat_completeness auto

termination
  by (relation "measure (\<lambda>(lt, first, holeIndex, topIndex, val, xs). holeIndex)") auto

declare push_heap.simps [simp del]

function adjust_loop ::
  "('a \<Rightarrow> 'a \<Rightarrow> bool) \<Rightarrow> nat \<Rightarrow> nat \<Rightarrow> nat \<Rightarrow> 'a list \<Rightarrow> nat \<times> 'a list"
where
  "adjust_loop lt first len secondChild xs =
     (if secondChild < (len - 1) div 2 then
        (let c = 2 * (secondChild + 1);
             c' = (if lt (xs ! (first + c)) (xs ! (first + (c - 1))) then c - 1 else c)
         in adjust_loop lt first len c' (xs[first + secondChild := xs ! (first + c')]))
      else (secondChild, xs))"
  by pat_completeness auto

termination
  by (relation "measure (\<lambda>(lt, first, len, secondChild, xs). len - secondChild)") auto

declare adjust_loop.simps [simp del]

definition adjust_heap ::
  "('a \<Rightarrow> 'a \<Rightarrow> bool) \<Rightarrow> nat \<Rightarrow> nat \<Rightarrow> nat \<Rightarrow> 'a \<Rightarrow> 'a list \<Rightarrow> 'a list"
where
  "adjust_heap lt first holeIndex len val xs =
     (let (secondChild, ys) = adjust_loop lt first len holeIndex xs in
      if even len \<and> secondChild = (len - 2) div 2 then
        (let c = 2 * (secondChild + 1) in
         push_heap lt first (c - 1) holeIndex val (ys[first + secondChild := ys ! (first + (c - 1))]))
      else push_heap lt first secondChild holeIndex val ys)"

definition pop_heap :: "('a \<Rightarrow> 'a \<Rightarrow> bool) \<Rightarrow> nat \<Rightarrow> nat \<Rightarrow> nat \<Rightarrow> 'a list \<Rightarrow> 'a list" where
  "pop_heap lt first lst result xs =
     adjust_heap lt first 0 (lst - first) (xs ! result) (xs[result := xs ! first])"

fun make_heap_loop :: "('a \<Rightarrow> 'a \<Rightarrow> bool) \<Rightarrow> nat \<Rightarrow> nat \<Rightarrow> nat \<Rightarrow> 'a list \<Rightarrow> 'a list" where
  "make_heap_loop lt first len 0 xs = adjust_heap lt first 0 len (xs ! first) xs"
| "make_heap_loop lt first len (Suc parent) xs =
     make_heap_loop lt first len parent
       (adjust_heap lt first (Suc parent) len (xs ! (first + Suc parent)) xs)"

definition make_heap :: "('a \<Rightarrow> 'a \<Rightarrow> bool) \<Rightarrow> nat \<Rightarrow> nat \<Rightarrow> 'a list \<Rightarrow> 'a list" where
  "make_heap lt first lst xs =
     (if lst - first < 2 then xs
      else make_heap_loop lt first (lst - first) ((lst - first - 2) div 2) xs)"

fun sort_heap_loop :: "('a \<Rightarrow> 'a \<Rightarrow> bool) \<Rightarrow> nat \<Rightarrow> nat \<Rightarrow> 'a list \<Rightarrow> 'a list" where
  "sort_heap_loop lt first 0 xs = xs"
| "sort_heap_loop lt first (Suc n) xs =
     (if Suc n > 1
      then sort_heap_loop lt first n (pop_heap lt first (first + n) (first + n) xs)
      else xs)"

text \<open>
  \<^verbatim>\<open>std::__partial_sort(first, last, last, comp)\<close>, as \<^verbatim>\<open>__introsort_loop\<close> calls it: the
  loop of \<^verbatim>\<open>__heap_select\<close> over \<^verbatim>\<open>[middle, last)\<close> is empty.
\<close>

definition partial_sort :: "('a \<Rightarrow> 'a \<Rightarrow> bool) \<Rightarrow> nat \<Rightarrow> nat \<Rightarrow> 'a list \<Rightarrow> 'a list" where
  "partial_sort lt first lst xs =
     sort_heap_loop lt first (lst - first) (make_heap lt first lst xs)"

text \<open>
  \<^verbatim>\<open>std::__introsort_loop(first, last, depth_limit, comp)\<close>, with the threshold
  \<^verbatim>\<open>_S_threshold = 16\<close>; the recursion is on the depth limit.
\<close>

primrec introsort_loop ::
  "nat \<Rightarrow> ('a \<Rightarrow> 'a \<Rightarrow> bool) \<Rightarrow> nat \<Rightarrow> nat \<Rightarrow> 'a list \<Rightarrow> 'a list"
where
  "introsort_loop 0 lt first lst xs =
     (if lst - first > 16 then partial_sort lt first lst xs else xs)"
| "introsort_loop (Suc depth_limit) lt first lst xs =
     (if lst - first > 16 then
        (let (cut, ys) = unguarded_partition_pivot lt first lst xs in
         introsort_loop depth_limit lt first cut (introsort_loop depth_limit lt cut lst ys))
      else xs)"

text \<open>\<^verbatim>\<open>std::__unguarded_linear_insert(last, comp)\<close>, with \<open>val = *last\<close>.\<close>

fun unguarded_linear_insert :: "('a \<Rightarrow> 'a \<Rightarrow> bool) \<Rightarrow> 'a \<Rightarrow> nat \<Rightarrow> 'a list \<Rightarrow> 'a list" where
  "unguarded_linear_insert lt val 0 xs = xs[0 := val]"
| "unguarded_linear_insert lt val (Suc next) xs =
     (if lt val (xs ! next)
      then unguarded_linear_insert lt val next (xs[Suc next := xs ! next])
      else xs[Suc next := val])"

text \<open>
  One turn of the loop of \<^verbatim>\<open>std::__insertion_sort(first, last, comp)\<close>, for the element
  at \<open>i\<close>: \<^verbatim>\<open>std::move_backward(first, i, i + 1); *first = val;\<close> when it is less than
  the first one, and \<^verbatim>\<open>__unguarded_linear_insert(i)\<close> otherwise.
\<close>

definition linear_insert :: "('a \<Rightarrow> 'a \<Rightarrow> bool) \<Rightarrow> nat \<Rightarrow> 'a list \<Rightarrow> nat \<Rightarrow> 'a list" where
  "linear_insert lt first xs i =
     (if lt (xs ! i) (xs ! first)
      then take first xs @ [xs ! i] @ take (i - first) (drop first xs) @ drop (Suc i) xs
      else unguarded_linear_insert lt (xs ! i) i xs)"

definition gnu_insertion_sort :: "('a \<Rightarrow> 'a \<Rightarrow> bool) \<Rightarrow> nat \<Rightarrow> nat \<Rightarrow> 'a list \<Rightarrow> 'a list" where
  "gnu_insertion_sort lt first lst xs = foldl (linear_insert lt first) xs [Suc first..<lst]"

definition unguarded_insertion_sort ::
  "('a \<Rightarrow> 'a \<Rightarrow> bool) \<Rightarrow> nat \<Rightarrow> nat \<Rightarrow> 'a list \<Rightarrow> 'a list"
where
  "unguarded_insertion_sort lt first lst xs =
     foldl (\<lambda>ys i. unguarded_linear_insert lt (ys ! i) i ys) xs [first..<lst]"

definition final_insertion_sort ::
  "('a \<Rightarrow> 'a \<Rightarrow> bool) \<Rightarrow> nat \<Rightarrow> nat \<Rightarrow> 'a list \<Rightarrow> 'a list"
where
  "final_insertion_sort lt first lst xs =
     (if lst - first > 16
      then unguarded_insertion_sort lt (first + 16) lst (gnu_insertion_sort lt first (first + 16) xs)
      else gnu_insertion_sort lt first lst xs)"

text \<open>\<^verbatim>\<open>std::sort(first, last, comp)\<close> over a whole vector.\<close>

definition gnu_sort :: "('a \<Rightarrow> 'a \<Rightarrow> bool) \<Rightarrow> 'a list \<Rightarrow> 'a list" where
  "gnu_sort lt xs =
     (if xs = [] then xs
      else final_insertion_sort lt 0 (length xs)
             (introsort_loop (lg (length xs) * 2) lt 0 (length xs) xs))"

section \<open>Example inputs\<close>

text \<open>
  Concrete commands and renderers on which the theorems below are instantiated: a quad
  (4 vertices, 6 indices) with a given kind and material, and a renderer as the
  constructor leaves it (one default queue, the group stack holding 0, nothing staged),
  with all GL flags off.
\<close>

definition example_command :: "command_type \<Rightarrow> 32 word \<Rightarrow> render_command" where
  "example_command t m =
     \<lparr>getType = t, getGlobalOrder = Num 0, isSkipBatching = False, getMaterialID = m,
      getVertexCount = 4, getIndexCount = 6, getRenderQueueID = 0,
      useMaterial = (\<lambda>f. f), execute = (\<lambda>f. f)\<rparr>"

definition example_renderer :: renderer where
  "example_renderer =
     \<lparr>renderGroups = [new_queue False False False], commandGroupStack = [0],
      isRendering = False, glViewAssigned = True, isDepthTestFor2D = False,
      queuedTriangleCommands = [], filledVertex = 0, filledIndex = 0,
      triBatchesToDraw = (\<lambda>n. \<lparr>offset = 0, indicesToDraw = 0, cmd = None\<rparr>),
      drawnBatches = 0, drawnVertices = 0,
      gl = \<lparr>DEPTH_TEST = False, CULL_FACE = False, DEPTH_WRITEMASK = False, BLEND = False\<rparr>,
      glCalls = [], errorLog = [], indices = (\<lambda>k. None), elementBuffer = (\<lambda>k. None),
      rendered = []\<rparr>"

definition example_limits :: limits where
  "example_limits = \<lparr>VBO_SIZE = 65536, INDEX_VBO_SIZE = 98304\<rparr>"

text \<open>Capacities small enough for three quads to overflow them.\<close>

definition small_limits :: limits where
  "small_limits = \<lparr>VBO_SIZE = 10, INDEX_VBO_SIZE = 15\<rparr>"

text \<open>
  Two functions that meet the contract of \<^verbatim>\<open>std::sort\<close>, to instantiate the parameter
  \<open>srt\<close>: an insertion sort that puts an element in front of the elements equivalent to
  it (\<open>after = False\<close>, which keeps their order) or behind them (\<open>after = True\<close>,
  which reverses it).
\<close>

fun insert_by :: "bool \<Rightarrow> ('a \<Rightarrow> 'a \<Rightarrow> bool) \<Rightarrow> 'a \<Rightarrow> 'a list \<Rightarrow> 'a list" where
  "insert_by after lt x [] = [x]"
| "insert_by after lt x (y # ys) =
     (if (if after then \<not> lt x y else lt y x) then y # insert_by after lt x ys
      else x # y # ys)"

definition insertion_sort :: "bool \<Rightarrow> ('a \<Rightarrow> 'a \<Rightarrow> bool) \<Rightarrow> 'a list \<Rightarrow> 'a list" where
  "insertion_sort after lt xs = foldr (insert_by after lt) xs []"

text \<open>A command with a given global order and material, and a queue as constructed.\<close>

definition ordered_command :: "real \<Rightarrow> 32 word \<Rightarrow> render_command" where
  "ordered_command z m = (example_command CUSTOM_COMMAND m)\<lparr>getGlobalOrder := Num z\<rparr>"

definition example_queue :: render_queue where
  "example_queue = new_queue False False False"

text \<open>
  A renderer with two queues: the root queue holds a group command for queue 1, and
  queue 1 holds a custom command whose \<open>execute()\<close> inverts the three saved flags.
\<close>

definition inverting_command :: render_command where
  "inverting_command =
     (example_command CUSTOM_COMMAND 1)
       \<lparr>execute := (\<lambda>f. f\<lparr>DEPTH_TEST := \<not> DEPTH_TEST f, CULL_FACE := \<not> CULL_FACE f,
                           DEPTH_WRITEMASK := \<not> DEPTH_WRITEMASK f\<rparr>)\<rparr>"

definition group_command :: render_command where
  "group_command = (example_command GROUP_COMMAND 1)\<lparr>getRenderQueueID := 1\<rparr>"

definition nested_renderer :: renderer where
  "nested_renderer =
     example_renderer\<lparr>renderGroups :=
       [push_back example_queue group_command, push_back example_queue inverting_command]\<rparr>"

text \<open>
  A renderer with two queues, to follow the draw order through a group: the root queue
  holds a quad of material 1, a group command for queue 1 and a quad of material 2;
  queue 1 holds a custom command and a quad of material 3.
\<close>

definition order_renderer :: renderer where
  "order_renderer =
     example_renderer\<lparr>renderGroups :=
       [foldl push_back example_queue
          [example_command TRIANGLES_COMMAND 1, group_command, example_command TRIANGLES_COMMAND 2],
        foldl push_back example_queue
          [example_command CUSTOM_COMMAND 1, example_command TRIANGLES_COMMAND 3]]\<rparr>"

section \<open>Predicates used in the statements and proofs\<close>

text \<open>
  The staging state between two dispatches: the fill counters are the sums over the
  staged commands, whose counts are not negative, and they are within the capacities.
\<close>

definition staging_ok :: "limits \<Rightarrow> renderer \<Rightarrow> bool" where
  "staging_ok caps r =
     (filledVertex r = sum_list (map getVertexCount (queuedTriangleCommands r)) \<and>
      filledIndex r = sum_list (map getIndexCount (queuedTriangleCommands r)) \<and>
      list_all (\<lambda>c. 0 \<le> getVertexCount c \<and> 0 \<le> getIndexCount c) (queuedTriangleCommands r) \<and>
      filledVertex r \<le> VBO_SIZE caps \<and> filledIndex r \<le> INDEX_VBO_SIZE caps)"

text \<open>A triangle command whose own counts are below the capacities.\<close>

definition fits_staging :: "limits \<Rightarrow> render_command \<Rightarrow> bool" where
  "fits_staging caps c =
     (getType c = TRIANGLES_COMMAND \<and>
      0 \<le> getVertexCount c \<and> getVertexCount c < VBO_SIZE caps \<and>
      0 \<le> getIndexCount c \<and> getIndexCount c < INDEX_VBO_SIZE caps)"

text \<open>Every upload in a log of GL work is sized within the capacities.\<close>

definition uploads_within :: "limits \<Rightarrow> gl_event list \<Rightarrow> bool" where
  "uploads_within caps evs =
     list_all (\<lambda>e. case e of BufferData v i \<Rightarrow> v \<le> VBO_SIZE caps \<and> i \<le> INDEX_VBO_SIZE caps
                          | _ \<Rightarrow> True) evs"

text \<open>The comparison \<^verbatim>\<open><=\<close> of two floats.\<close>

fun float_le :: "cfloat \<Rightarrow> cfloat \<Rightarrow> bool" where
  "float_le (Num a) (Num b) = (a \<le> b)"
| "float_le _ _ = False"

text \<open>
  The classification that \<^verbatim>\<open>push_back\<close> maintains: the orders in the negative
  sub-queue are below zero, those in the positive one above zero, and those in the zero
  one neither.
\<close>

definition classified :: "render_queue \<Rightarrow> bool" where
  "classified q =
     (list_all (\<lambda>c. float_less (getGlobalOrder c) (Num 0)) (commands q GLOBALZ_NEG) \<and>
      list_all (\<lambda>c. float_less (Num 0) (getGlobalOrder c)) (commands q GLOBALZ_POS) \<and>
      list_all (\<lambda>c. \<not> float_less (getGlobalOrder c) (Num 0) \<and> \<not> float_less (Num 0) (getGlobalOrder c))
        (commands q GLOBALZ_ZERO))"

text \<open>
  The group nesting of the queue \<open>q\<close> is within \<open>n\<close>: the queue exists and, for
  \<open>n > 1\<close>, every group command in it names a queue whose nesting is within \<open>n - 1\<close>.
  It depends on the commands of the queues only (\<open>cs\<close> is the list of their
  \<open>commands\<close>), which a sweep does not change.
\<close>

definition all_commands :: "(QUEUE_GROUP \<Rightarrow> render_command list) \<Rightarrow> render_command list" where
  "all_commands c = concat (map c QUEUE_GROUPS)"

primrec nesting_within ::
  "nat \<Rightarrow> (QUEUE_GROUP \<Rightarrow> render_command list) list \<Rightarrow> int \<Rightarrow> bool"
where
  "nesting_within 0 cs q = False"
| "nesting_within (Suc n) cs q =
     (0 \<le> q \<and> nat q < length cs \<and>
      list_all (\<lambda>c. getType c = GROUP_COMMAND \<longrightarrow> nesting_within n cs (getRenderQueueID c))
        (all_commands (cs ! nat q)))"

text \<open>The queue \<open>p\<close> nests no deeper than the queue \<open>q\<close>.\<close>

definition no_deeper :: "(QUEUE_GROUP \<Rightarrow> render_command list) list \<Rightarrow> int \<Rightarrow> int \<Rightarrow> bool" where
  "no_deeper cs q p = (\<forall>k. nesting_within k cs q \<longrightarrow> nesting_within k cs p)"

text \<open>
  From \<open>r\<close> to \<open>r'\<close> the commands of all queues are the same, and a queue that differs
  at all (in its snapshot, then) has an index in \<open>X\<close>.
\<close>

definition changes_only :: "(int \<Rightarrow> bool) \<Rightarrow> renderer \<Rightarrow> renderer \<Rightarrow> bool" where
  "changes_only X r r' =
     (map commands (renderGroups r') = map commands (renderGroups r) \<and>
      (\<forall>p. p < length (renderGroups r) \<and> renderGroups r' ! p \<noteq> renderGroups r ! p \<longrightarrow> X (int p)))"

text \<open>What an outcome shows from outside: the log of GL work and the staged commands.\<close>

definition logged_calls :: "error + renderer \<Rightarrow> error + gl_event list" where
  "logged_calls x = map_sum id glCalls x"

definition staged_commands :: "error + renderer \<Rightarrow> error + render_command list" where
  "staged_commands x = map_sum id queuedTriangleCommands x"

text \<open>
  What a triangle command puts on the screen: its index list, slot by slot.
\<close>

definition slots_of :: "render_command \<Rightarrow> painted list" where
  "slots_of c = map (\<lambda>i. Drawn (Some (c, i))) (index_range 0 (getIndexCount c))"

text \<open>The filled part of the index staging array, as a draw call would draw it.\<close>

definition filled_slots :: "renderer \<Rightarrow> painted list" where
  "filled_slots r = map (\<lambda>k. Drawn (indices r k)) (index_range 0 (filledIndex r))"

text \<open>
  The batch entries written so far by the scan lie one behind the other: the entries below
  the current one cover the indices from 0 to the offset of the current one, and the
  current one ends at the fill counter.
\<close>

definition scan_inv :: "batch_pass \<Rightarrow> bool" where
  "scan_inv s =
     (let tb = triBatchesToDraw (pass_renderer s); n = batchesTotal s in
      concat (map (\<lambda>i. index_range (offset (tb i)) (indicesToDraw (tb i))) [0..<n]) =
        index_range 0 (offset (tb n)) \<and>
      offset (tb n) + indicesToDraw (tb n) = filledIndex (pass_renderer s) \<and>
      0 \<le> offset (tb n) \<and> 0 \<le> indicesToDraw (tb n) \<and>
      (firstCommand s \<longrightarrow> indicesToDraw (tb n) = 0))"

text \<open>
  What a dispatched command puts on the screen: a triangle command its index list, a
  custom, batch or primitive command its own submission, a group command what the sweep
  of its queue draws (\<open>sub\<close>), and a command of the unknown kind nothing.
\<close>

definition paint_of :: "(int \<Rightarrow> painted list) \<Rightarrow> render_command \<Rightarrow> painted list" where
  "paint_of sub c =
     (if getType c = TRIANGLES_COMMAND then slots_of c
      else if getType c = GROUP_COMMAND then sub (getRenderQueueID c)
      else if getType c = CUSTOM_COMMAND \<or> getType c = BATCH_COMMAND \<or>
              getType c = PRIMITIVE_COMMAND then [Executed c]
      else [])"

text \<open>
  The commands of the queue \<open>q\<close> in submission order, sub-queue after sub-queue and each
  in the order of its vector, with the queue of a group command in the place of the group
  command, down to the nesting depth \<open>n\<close>. \<open>cs\<close> is the list of the \<open>commands\<close> of all
  queues.
\<close>

primrec submission_order ::
  "nat \<Rightarrow> (QUEUE_GROUP \<Rightarrow> render_command list) list \<Rightarrow> int \<Rightarrow> painted list"
where
  "submission_order 0 cs q = []"
| "submission_order (Suc n) cs q =
     concat (map (paint_of (submission_order n cs)) (all_commands (cs ! nat q)))"

text \<open>What has been drawn, followed by what is staged and will be drawn by the next flush.\<close>

definition committed :: "renderer \<Rightarrow> painted list" where
  "committed r = rendered r @ concat (map slots_of (queuedTriangleCommands r))"

text \<open>No triangle command of any queue has a negative index count.\<close>

definition counts_nonneg :: "(QUEUE_GROUP \<Rightarrow> render_command list) list \<Rightarrow> bool" where
  "counts_nonneg cs =
     list_all (\<lambda>q. list_all (\<lambda>c. getType c = TRIANGLES_COMMAND \<longrightarrow> 0 \<le> getIndexCount c)
                      (all_commands q)) cs"

section \<open>Properties\<close>

subsection \<open>Dispatch of an unknown kind\<close>

text \<open>
  C10. Dispatching a command whose kind tag is the unknown one returns normally and
  changes nothing but the error log: the staged triangle commands, the fill counters, the
  GL flags and the log of GL work (no draw call, no flush) are as before.
\<close>

theorem unknown_command_is_skipped:
  assumes "getType c = UNKNOWN_COMMAND"
  shows "processRenderCommand caps visit r (Some c) =
           Some (Inr (r\<lparr>errorLog := errorLog r @ [''Unknown commands in renderQueue'']\<rparr>))"
  using assms by (simp add: processRenderCommand_def)

theorem unknown_command_is_skipped_witness:
  "getType (example_command UNKNOWN_COMMAND 1) = UNKNOWN_COMMAND \<and>
   processRenderCommand example_limits (\<lambda>r q. None)
       (queue_it example_renderer (example_command TRIANGLES_COMMAND 1))
       (Some (example_command UNKNOWN_COMMAND 1)) =
     Some (Inr ((queue_it example_renderer (example_command TRIANGLES_COMMAND 1))
                  \<lparr>errorLog := [''Unknown commands in renderQueue'']\<rparr>))"
proof -
  have k: "getType (example_command UNKNOWN_COMMAND 1) = UNKNOWN_COMMAND"
    by (simp add: example_command_def)
  have e: "errorLog (queue_it example_renderer (example_command TRIANGLES_COMMAND 1)) = []"
    by (simp add: queue_it_def example_renderer_def)
  show ?thesis
    using unknown_command_is_skipped [OF k, of example_limits "\<lambda>r q. None"
        "queue_it example_renderer (example_command TRIANGLES_COMMAND 1)"] k e
    by simp
qed

subsection \<open>Submitting commands\<close>

lemma push_back_appends:
  "\<exists>g. commands (push_back qu c) = (commands qu)(g := commands qu g @ [c])"
  by (auto simp: push_back_def Let_def)

text \<open>
  C8. \<open>addCommand(cmd, id)\<close> aborts on an assertion when a frame is in progress, when
  the id is negative or when the command's kind tag is the unknown one. Otherwise, for an
  id of the queue table, it returns the renderer in which the queue with that id has the
  command appended (to the end of one of its sub-queues) and nothing else differs; no
  other queue is modified. Without an id the command goes to the queue on top of the
  group stack.
\<close>

theorem addCommand_routes:
  "(isRendering r \<or> q < 0 \<or> getType c = UNKNOWN_COMMAND \<longrightarrow>
      (\<exists>msg. addCommand_to r c q = Inl (AssertionFailed msg)))
   \<and> (\<not> isRendering r \<and> 0 \<le> q \<and> nat q < length (renderGroups r) \<and> getType c \<noteq> UNKNOWN_COMMAND \<longrightarrow>
        addCommand_to r c q =
          Inr (r\<lparr>renderGroups := (renderGroups r)[nat q := push_back (renderGroups r ! nat q) c]\<rparr>))
   \<and> (\<forall>r'. addCommand_to r c q = Inr r' \<longrightarrow>
          length (renderGroups r') = length (renderGroups r) \<and>
          (\<forall>j. j \<noteq> nat q \<longrightarrow> renderGroups r' ! j = renderGroups r ! j))
   \<and> (\<exists>g. commands (push_back qu c) = (commands qu)(g := commands qu g @ [c]))
   \<and> (\<forall>top rest. commandGroupStack r = top # rest \<longrightarrow> addCommand r c = addCommand_to r c top)"
proof (intro conjI)
  show "isRendering r \<or> q < 0 \<or> getType c = UNKNOWN_COMMAND \<longrightarrow>
          (\<exists>msg. addCommand_to r c q = Inl (AssertionFailed msg))"
    by (auto simp: addCommand_to_def)
  show "\<not> isRendering r \<and> 0 \<le> q \<and> nat q < length (renderGroups r) \<and> getType c \<noteq> UNKNOWN_COMMAND \<longrightarrow>
        addCommand_to r c q =
          Inr (r\<lparr>renderGroups := (renderGroups r)[nat q := push_back (renderGroups r ! nat q) c]\<rparr>)"
    by (simp add: addCommand_to_def)
  show "\<forall>r'. addCommand_to r c q = Inr r' \<longrightarrow>
          length (renderGroups r') = length (renderGroups r) \<and>
          (\<forall>j. j \<noteq> nat q \<longrightarrow> renderGroups r' ! j = renderGroups r ! j)"
    by (auto simp: addCommand_to_def split: if_splits)
  show "\<exists>g. commands (push_back qu c) = (commands qu)(g := commands qu g @ [c])"
    by (rule push_back_appends)
  show "\<forall>top rest. commandGroupStack r = top # rest \<longrightarrow> addCommand r c = addCommand_to r c top"
    by (simp add: addCommand_def)
qed

theorem addCommand_routes_witness:
  "isRendering (example_renderer\<lparr>isRendering := True\<rparr>)
   \<and> (\<exists>msg. addCommand_to (example_renderer\<lparr>isRendering := True\<rparr>)
               (example_command CUSTOM_COMMAND 1) 0 = Inl (AssertionFailed msg))
   \<and> commandGroupStack example_renderer = [0]
   \<and> addCommand example_renderer (example_command CUSTOM_COMMAND 1) =
       Inr (example_renderer\<lparr>renderGroups :=
              [push_back (new_queue False False False) (example_command CUSTOM_COMMAND 1)]\<rparr>)
   \<and> commands (push_back (new_queue False False False) (example_command CUSTOM_COMMAND 1)) GLOBALZ_ZERO =
       [example_command CUSTOM_COMMAND 1]"
proof -
  let ?c = "example_command CUSTOM_COMMAND 1"
  have a: "isRendering (example_renderer\<lparr>isRendering := True\<rparr>)" by simp
  have s: "commandGroupStack example_renderer = [0]" by (simp add: example_renderer_def)
  have g: "\<not> isRendering example_renderer \<and> (0::int) \<le> 0 \<and>
           nat 0 < length (renderGroups example_renderer) \<and> getType ?c \<noteq> UNKNOWN_COMMAND"
    by (simp add: example_renderer_def example_command_def)
  have p: "commands (push_back (new_queue False False False) ?c) GLOBALZ_ZERO = [?c]"
    by (simp add: push_back_def new_queue_def example_command_def)
  have q: "renderGroups example_renderer = [new_queue False False False]"
    by (simp add: example_renderer_def)
  from addCommand_routes [of "example_renderer\<lparr>isRendering := True\<rparr>" 0 ?c] a
  have 1: "\<exists>msg. addCommand_to (example_renderer\<lparr>isRendering := True\<rparr>) ?c 0 = Inl (AssertionFailed msg)"
    by blast
  from addCommand_routes [of example_renderer 0 ?c] g s
  have 2: "addCommand example_renderer ?c =
             Inr (example_renderer\<lparr>renderGroups := [push_back (new_queue False False False) ?c]\<rparr>)"
    by (simp add: q)
  from a 1 s 2 p show ?thesis by blast
qed

subsection \<open>The scan of the triangle batcher\<close>

text \<open>
  One step of the scan touches the two fill counters and the batch array and nothing else
  of the renderer; the next two lemmas say what it does to them on each branch.
\<close>

lemma batch_step_frame:
  assumes "batch_step s c = Inr s'"
  shows "(pass_renderer s')\<lparr>filledVertex := a, filledIndex := b, triBatchesToDraw := f,
                             indices := ix\<rparr> =
         (pass_renderer s)\<lparr>filledVertex := a, filledIndex := b, triBatchesToDraw := f,
                            indices := ix\<rparr>"
  using assms
  by (auto simp: batch_step_def fillVerticesAndIndices_def Let_def split: if_splits option.splits)

lemma batch_step_fill:
  assumes "batch_step s c = Inr s'"
  shows "filledVertex (pass_renderer s') = filledVertex (pass_renderer s) + getVertexCount c"
    and "filledIndex (pass_renderer s') = filledIndex (pass_renderer s) + getIndexCount c"
    and "\<not> firstCommand s'"
  using assms
  by (auto simp: batch_step_def fillVerticesAndIndices_def Let_def split: if_splits option.splits)

lemma batch_step_extend:
  assumes "\<not> isSkipBatching c" "prevMaterialID s = getMaterialID c \<or> firstCommand s"
    and "firstCommand s \<or>
         (\<exists>b. cmd (triBatchesToDraw (pass_renderer s) (batchesTotal s)) = Some b \<and>
              getMaterialID b = getMaterialID c)"
  shows "\<exists>s'. batch_step s c = Inr s' \<and> batchesTotal s' = batchesTotal s \<and>
           prevMaterialID s' = getMaterialID c \<and>
           triBatchesToDraw (pass_renderer s') (batchesTotal s) =
             \<lparr>offset = offset (triBatchesToDraw (pass_renderer s) (batchesTotal s)),
              indicesToDraw =
                indicesToDraw (triBatchesToDraw (pass_renderer s) (batchesTotal s)) + getIndexCount c,
              cmd = Some c\<rparr> \<and>
           (\<forall>i. i \<noteq> batchesTotal s \<longrightarrow>
              triBatchesToDraw (pass_renderer s') i = triBatchesToDraw (pass_renderer s) i)"
  using assms
  by (auto simp: batch_step_def fillVerticesAndIndices_def Let_def)

lemma batch_step_new:
  assumes "\<not> (\<not> isSkipBatching c \<and> (prevMaterialID s = getMaterialID c \<or> firstCommand s))"
  shows "\<exists>s'. batch_step s c = Inr s' \<and>
           batchesTotal s' = (if firstCommand s then batchesTotal s else batchesTotal s + 1) \<and>
           prevMaterialID s' = (if isSkipBatching c then - 1 else getMaterialID c) \<and>
           triBatchesToDraw (pass_renderer s') (batchesTotal s') =
             \<lparr>offset =
                (if firstCommand s
                 then offset (triBatchesToDraw (pass_renderer s) (batchesTotal s))
                 else offset (triBatchesToDraw (pass_renderer s) (batchesTotal s)) +
                      indicesToDraw (triBatchesToDraw (pass_renderer s) (batchesTotal s))),
              indicesToDraw = getIndexCount c, cmd = Some c\<rparr> \<and>
           (\<forall>i. i \<noteq> batchesTotal s' \<longrightarrow>
              triBatchesToDraw (pass_renderer s') i = triBatchesToDraw (pass_renderer s) i)"
  using assms
  by (auto simp: batch_step_def fillVerticesAndIndices_def Let_def)

lemma batch_loop_frame:
  assumes "batch_loop cs s = Inr s'"
  shows "(pass_renderer s')\<lparr>filledVertex := a, filledIndex := b, triBatchesToDraw := f,
                             indices := ix\<rparr> =
         (pass_renderer s)\<lparr>filledVertex := a, filledIndex := b, triBatchesToDraw := f,
                            indices := ix\<rparr>"
  using assms
proof (induction cs arbitrary: s)
  case Nil
  then show ?case by simp
next
  case (Cons c cs)
  then obtain s1 where 1: "batch_step s c = Inr s1" and 2: "batch_loop cs s1 = Inr s'"
    by (auto split: sum.splits)
  show ?case using Cons.IH [OF 2] batch_step_frame [OF 1] by simp
qed

lemma batch_loop_fill:
  assumes "batch_loop cs s = Inr s'"
  shows "filledVertex (pass_renderer s') =
           filledVertex (pass_renderer s) + sum_list (map getVertexCount cs) \<and>
         filledIndex (pass_renderer s') =
           filledIndex (pass_renderer s) + sum_list (map getIndexCount cs)"
  using assms
proof (induction cs arbitrary: s)
  case Nil
  then show ?case by simp
next
  case (Cons c cs)
  then obtain s1 where 1: "batch_step s c = Inr s1" and 2: "batch_loop cs s1 = Inr s'"
    by (auto split: sum.splits)
  show ?case using Cons.IH [OF 2] batch_step_fill(1,2) [OF 1] by simp
qed

text \<open>A run of batchable commands of one material keeps extending the current entry.\<close>

lemma batch_loop_run:
  assumes "\<not> firstCommand s" "prevMaterialID s = m"
    and "cmd (triBatchesToDraw (pass_renderer s) (batchesTotal s)) = Some b" "getMaterialID b = m"
    and "\<forall>x\<in>set cs. \<not> isSkipBatching x \<and> getMaterialID x = m"
  shows "\<exists>s'. batch_loop cs s = Inr s' \<and> batchesTotal s' = batchesTotal s \<and>
           triBatchesToDraw (pass_renderer s') (batchesTotal s) =
             \<lparr>offset = offset (triBatchesToDraw (pass_renderer s) (batchesTotal s)),
              indicesToDraw =
                indicesToDraw (triBatchesToDraw (pass_renderer s) (batchesTotal s)) +
                sum_list (map getIndexCount cs),
              cmd = Some (last (b # cs))\<rparr>"
  using assms
proof (induction cs arbitrary: s b)
  case Nil
  then show ?case by simp
next
  case (Cons c cs)
  have c: "\<not> isSkipBatching c" "getMaterialID c = m" using Cons.prems(5) by simp_all
  from batch_step_extend [of c s] c Cons.prems(1-4)
  obtain s1 where 1: "batch_step s c = Inr s1" and n: "batchesTotal s1 = batchesTotal s"
    and p: "prevMaterialID s1 = m"
    and t: "triBatchesToDraw (pass_renderer s1) (batchesTotal s) =
             \<lparr>offset = offset (triBatchesToDraw (pass_renderer s) (batchesTotal s)),
              indicesToDraw =
                indicesToDraw (triBatchesToDraw (pass_renderer s) (batchesTotal s)) + getIndexCount c,
              cmd = Some c\<rparr>"
    by auto
  have f: "\<not> firstCommand s1" using batch_step_fill(3) [OF 1] .
  from Cons.IH [of s1 c] f p t n c Cons.prems(5)
  obtain s' where 2: "batch_loop cs s1 = Inr s'" and n': "batchesTotal s' = batchesTotal s1"
    and t': "triBatchesToDraw (pass_renderer s') (batchesTotal s1) =
             \<lparr>offset = offset (triBatchesToDraw (pass_renderer s1) (batchesTotal s1)),
              indicesToDraw =
                indicesToDraw (triBatchesToDraw (pass_renderer s1) (batchesTotal s1)) +
                sum_list (map getIndexCount cs),
              cmd = Some (last (c # cs))\<rparr>"
    by auto
  show ?case using 1 2 n n' t t' by (simp add: add.assoc)
qed
lemma draw_one_run:
  assumes q: "queuedTriangleCommands r = c # cs"
    and m: "\<forall>x\<in>set (c # cs). \<not> isSkipBatching x \<and> getMaterialID x = m"
  shows "\<exists>r'. drawBatchedTriangles r = Inr r' \<and>
           glCalls r' = glCalls r @
             [BufferData (sum_list (map getVertexCount (c # cs))) (sum_list (map getIndexCount (c # cs))),
              DrawElements (last (c # cs)) (sum_list (map getIndexCount (c # cs))) 0] \<and>
           drawnBatches r' = drawnBatches r + 1 \<and>
           triBatchesToDraw r' 0 =
             \<lparr>offset = 0, indicesToDraw = sum_list (map getIndexCount (c # cs)),
              cmd = Some (last (c # cs))\<rparr> \<and>
           queuedTriangleCommands r' = [] \<and> filledVertex r' = 0 \<and> filledIndex r' = 0"
proof -
  let ?r0 = "r\<lparr>filledVertex := 0, filledIndex := 0,
               triBatchesToDraw :=
                 (triBatchesToDraw r)(0 := \<lparr>offset = 0, indicesToDraw = 0, cmd = None\<rparr>)\<rparr>"
  let ?s0 = "\<lparr>pass_renderer = ?r0, batchesTotal = 0, prevMaterialID = - 1, firstCommand = True\<rparr>"
  have c: "\<not> isSkipBatching c" "getMaterialID c = m" using m by simp_all
  from batch_step_extend [of c ?s0] c
  obtain s1 where 1: "batch_step ?s0 c = Inr s1" and n1: "batchesTotal s1 = 0"
    and p1: "prevMaterialID s1 = m"
    and t1: "triBatchesToDraw (pass_renderer s1) 0 =
               \<lparr>offset = 0, indicesToDraw = getIndexCount c, cmd = Some c\<rparr>"
    by auto
  have f1: "\<not> firstCommand s1" using batch_step_fill(3) [OF 1] .
  from batch_loop_run [of s1 m c cs] f1 p1 t1 n1 c m
  obtain s' where 2: "batch_loop cs s1 = Inr s'" and n': "batchesTotal s' = 0"
    and t': "triBatchesToDraw (pass_renderer s') 0 =
               \<lparr>offset = 0, indicesToDraw = getIndexCount c + sum_list (map getIndexCount cs),
                cmd = Some (last (c # cs))\<rparr>"
    by auto
  have loop: "batch_loop (c # cs) ?s0 = Inr s'" using 1 2 by simp
  have fill: "filledVertex (pass_renderer s') = sum_list (map getVertexCount (c # cs))"
             "filledIndex (pass_renderer s') = sum_list (map getIndexCount (c # cs))"
    using batch_loop_fill [OF loop] by simp_all
  note fr = batch_loop_frame [OF loop, where a = 0 and b = 0 and f = "triBatchesToDraw r"]
  have calls: "glCalls (pass_renderer s') = glCalls r"
    using arg_cong [OF fr, of glCalls] by simp
  have drawn: "drawnBatches (pass_renderer s') = drawnBatches r"
    using arg_cong [OF fr, of drawnBatches] by simp
  show ?thesis
    using q loop n' t' fill calls drawn
    by (simp add: drawBatchedTriangles_def Let_def)
qed

text \<open>
  C2. A run that is all that is staged is one batch (lemma \<open>draw_one_run\<close>), and so is a
  run inside a longer staged sequence when no command after the first one has the material
  identifier \<open>-1\<close> (lemma \<open>run_in_context_is_one_batch\<close> below); the scenario of three
  quads with materials 1, 1, 2 gives the entry \<open>[0, 12)\<close> with material 1 and the entry
  \<open>[12, 18)\<close> (byte offset 24) with material 2, with 12 vertices and 18 indices filled.
  A run of two batchable quads of material \<open>-1\<close> behind a skip-batching quad is not a
  batch of its own: it matches the mark \<open>-1\<close> that the skip-batching quad leaves in
  \<^verbatim>\<open>prevMaterialID\<close>, so the three quads are drawn by one draw call of 18 indices from
  offset 0, where the rule of the specification has the entries \<open>[0, 6)\<close> and
  \<open>[6, 18)\<close>; with another material on the skip-batching quad, the scan's own assertion
  about equal materials fails.
\<close>

theorem sentinel_run_joins_skip_batching:
  "logged_calls
     (drawBatchedTriangles
        (example_renderer\<lparr>queuedTriangleCommands :=
           [(example_command TRIANGLES_COMMAND (- 1))\<lparr>isSkipBatching := True\<rparr>,
            example_command TRIANGLES_COMMAND (- 1),
            example_command TRIANGLES_COMMAND (- 1)]\<rparr>)) =
     Inr [BufferData 12 18, DrawElements (example_command TRIANGLES_COMMAND (- 1)) 18 0]
   \<and> map (\<lambda>b. (offset b, indicesToDraw b))
         (spec_batches
            [(example_command TRIANGLES_COMMAND (- 1))\<lparr>isSkipBatching := True\<rparr>,
             example_command TRIANGLES_COMMAND (- 1),
             example_command TRIANGLES_COMMAND (- 1)]) = [(0, 6), (6, 12)]
   \<and> drawBatchedTriangles
         (example_renderer\<lparr>queuedTriangleCommands :=
            [(example_command TRIANGLES_COMMAND 5)\<lparr>isSkipBatching := True\<rparr>,
             example_command TRIANGLES_COMMAND (- 1),
             example_command TRIANGLES_COMMAND (- 1)]\<rparr>) =
       Inl (AssertionFailed ''argh... error in logic'')
   \<and> logged_calls
         (drawBatchedTriangles
            (example_renderer\<lparr>queuedTriangleCommands :=
               [example_command TRIANGLES_COMMAND 1, example_command TRIANGLES_COMMAND 1,
                example_command TRIANGLES_COMMAND 2]\<rparr>)) =
       Inr [BufferData 12 18,
            DrawElements (example_command TRIANGLES_COMMAND 1) 12 0,
            DrawElements (example_command TRIANGLES_COMMAND 2) 6 24]"
  by (simp add: drawBatchedTriangles_def batch_step_def fillVerticesAndIndices_def Let_def
      logged_calls_def joins_def example_renderer_def example_command_def)

text \<open>
  C1. The scan decides with \<^verbatim>\<open>prevMaterialID == currentMaterialID\<close>, and a command that
  skips batching leaves \<open>-1\<close> in \<^verbatim>\<open>prevMaterialID\<close>. A batchable command whose own
  material identifier is that value (the word of all ones) therefore matches the mark
  left by a skip-batching predecessor. With the same material on both, the two commands
  are drawn as one batch of 12 indices by one draw call, where the rule of the
  specification has two batches of 6 indices; with another material on the predecessor,
  the scan's own assertion about equal materials fails.
\<close>

theorem sentinel_material_joins_skip_batching:
  "logged_calls
     (drawBatchedTriangles
        (example_renderer\<lparr>queuedTriangleCommands :=
           [(example_command TRIANGLES_COMMAND (- 1))\<lparr>isSkipBatching := True\<rparr>,
            example_command TRIANGLES_COMMAND (- 1)]\<rparr>)) =
     Inr [BufferData 8 12, DrawElements (example_command TRIANGLES_COMMAND (- 1)) 12 0]
   \<and> drawBatchedTriangles
         (example_renderer\<lparr>queuedTriangleCommands :=
            [(example_command TRIANGLES_COMMAND 5)\<lparr>isSkipBatching := True\<rparr>,
             example_command TRIANGLES_COMMAND (- 1)]\<rparr>) =
       Inl (AssertionFailed ''argh... error in logic'')
   \<and> map (\<lambda>b. (offset b, indicesToDraw b))
         (spec_batches
            [(example_command TRIANGLES_COMMAND (- 1))\<lparr>isSkipBatching := True\<rparr>,
             example_command TRIANGLES_COMMAND (- 1)]) = [(0, 6), (6, 6)]"
  by (simp add: drawBatchedTriangles_def batch_step_def fillVerticesAndIndices_def Let_def
      logged_calls_def joins_def example_renderer_def example_command_def)

subsection \<open>What a flush leaves behind\<close>

lemma batch_step_cmds:
  assumes "batch_step s c = Inr s'"
    and "firstCommand s \<and> batchesTotal s = 0 \<or> (\<forall>i\<le>batchesTotal s. cmd (triBatchesToDraw (pass_renderer s) i) \<noteq> None)"
  shows "\<forall>i\<le>batchesTotal s'. cmd (triBatchesToDraw (pass_renderer s') i) \<noteq> None"
proof (cases "\<not> isSkipBatching c \<and> (prevMaterialID s = getMaterialID c \<or> firstCommand s)")
  case True
  show ?thesis
  proof (cases "firstCommand s")
    case f: True
    with assms(1) True have "batchesTotal s' = batchesTotal s"
      and "cmd (triBatchesToDraw (pass_renderer s') (batchesTotal s)) = Some c"
      and "\<forall>i. i \<noteq> batchesTotal s \<longrightarrow>
            triBatchesToDraw (pass_renderer s') i = triBatchesToDraw (pass_renderer s) i"
      by (auto simp: batch_step_def fillVerticesAndIndices_def Let_def)
    then show ?thesis
      using assms(2) by (metis le_zero_eq option.distinct(1))
  next
    case f: False
    with assms(1) True show ?thesis using assms(2)
      by (auto simp: batch_step_def fillVerticesAndIndices_def Let_def
          split: if_splits option.splits)
  qed
next
  case False
  from batch_step_new [OF False] assms(1)
  have n: "batchesTotal s' = (if firstCommand s then batchesTotal s else batchesTotal s + 1)"
    and t: "cmd (triBatchesToDraw (pass_renderer s') (batchesTotal s')) = Some c"
    and o: "\<forall>i. i \<noteq> batchesTotal s' \<longrightarrow>
            triBatchesToDraw (pass_renderer s') i = triBatchesToDraw (pass_renderer s) i"
    by auto
  show ?thesis
  proof (intro allI impI)
    fix i assume i: "i \<le> batchesTotal s'"
    show "cmd (triBatchesToDraw (pass_renderer s') i) \<noteq> None"
    proof (cases "i = batchesTotal s'")
      case True
      then show ?thesis using t by simp
    next
      case ne: False
      with i n have "i \<le> batchesTotal s" "firstCommand s \<longrightarrow> batchesTotal s \<noteq> 0"
        by (auto split: if_splits)
      with assms(2) have "cmd (triBatchesToDraw (pass_renderer s) i) \<noteq> None"
        by blast
      with o ne show ?thesis by simp
    qed
  qed
qed

lemma batch_step_abort:
  assumes "batch_step s c = Inl e"
    and "firstCommand s \<and> batchesTotal s = 0 \<or> (\<forall>i\<le>batchesTotal s. cmd (triBatchesToDraw (pass_renderer s) i) \<noteq> None)"
  shows "e = AssertionFailed ''argh... error in logic''"
  using assms
  by (auto simp: batch_step_def fillVerticesAndIndices_def Let_def split: if_splits option.splits)

lemma batch_loop_cmds:
  assumes "batch_loop cs s = Inr s'"
    and "firstCommand s \<and> batchesTotal s = 0 \<or> (\<forall>i\<le>batchesTotal s. cmd (triBatchesToDraw (pass_renderer s) i) \<noteq> None)"
    and "cs \<noteq> []"
  shows "\<forall>i\<le>batchesTotal s'. cmd (triBatchesToDraw (pass_renderer s') i) \<noteq> None"
  using assms
proof (induction cs arbitrary: s)
  case Nil
  then show ?case by simp
next
  case (Cons c cs)
  then obtain s1 where 1: "batch_step s c = Inr s1" and 2: "batch_loop cs s1 = Inr s'"
    by (auto split: sum.splits)
  note k = batch_step_cmds [OF 1 Cons.prems(2)]
  show ?case
  proof (cases "cs = []")
    case True
    with 2 k show ?thesis by simp
  next
    case False
    from Cons.IH [OF 2 _ False] k show ?thesis by blast
  qed
qed

lemma batch_loop_abort:
  assumes "batch_loop cs s = Inl e"
    and "firstCommand s \<and> batchesTotal s = 0 \<or> (\<forall>i\<le>batchesTotal s. cmd (triBatchesToDraw (pass_renderer s) i) \<noteq> None)"
  shows "e = AssertionFailed ''argh... error in logic''"
  using assms
proof (induction cs arbitrary: s)
  case Nil
  then show ?case by simp
next
  case (Cons c cs)
  show ?case
  proof (cases "batch_step s c")
    case (Inl e')
    with Cons.prems show ?thesis using batch_step_abort [OF Inl Cons.prems(2)] by simp
  next
    case (Inr s1)
    with Cons.prems have "batch_loop cs s1 = Inl e" by simp
    from Cons.IH [OF this] batch_step_cmds [OF Inr Cons.prems(2)] show ?thesis by blast
  qed
qed

lemma draw_loop_frame:
  assumes "draw_loop bs r = Inr r'"
  shows "r'\<lparr>gl := g, glCalls := k, drawnBatches := a, drawnVertices := b, rendered := p\<rparr> =
         r\<lparr>gl := g, glCalls := k, drawnBatches := a, drawnVertices := b, rendered := p\<rparr>"
  using assms
proof (induction bs arbitrary: r)
  case Nil
  then show ?case by simp
next
  case (Cons x bs)
  then obtain c where c: "cmd x = Some c" by (auto split: option.splits)
  with Cons.prems Cons.IH show ?case by fastforce
qed

lemma draw_loop_calls:
  assumes "draw_loop bs r = Inr r'"
  shows "glCalls r' = glCalls r @
           map (\<lambda>b. DrawElements (the (cmd b)) (indicesToDraw b) (offset b * 2)) bs"
  using assms
proof (induction bs arbitrary: r)
  case Nil
  then show ?case by simp
next
  case (Cons x bs)
  then obtain c where c: "cmd x = Some c" by (auto split: option.splits)
  with Cons.prems Cons.IH show ?case by fastforce
qed

lemma draw_loop_returns:
  assumes "\<forall>b\<in>set bs. cmd b \<noteq> None"
  shows "\<exists>r'. draw_loop bs r = Inr r'"
  using assms by (induction bs arbitrary: r) auto

lemma drawBatchedTriangles_frame:
  assumes "drawBatchedTriangles r = Inr r'"
  shows "r'\<lparr>gl := g, glCalls := k, drawnBatches := a, drawnVertices := b, filledVertex := x,
            filledIndex := y, triBatchesToDraw := f, queuedTriangleCommands := q,
            indices := ix, elementBuffer := eb, rendered := p\<rparr> =
         r\<lparr>gl := g, glCalls := k, drawnBatches := a, drawnVertices := b, filledVertex := x,
           filledIndex := y, triBatchesToDraw := f, queuedTriangleCommands := q,
           indices := ix, elementBuffer := eb, rendered := p\<rparr>"
proof (cases "queuedTriangleCommands r = []")
  case True
  with assms show ?thesis by (simp add: drawBatchedTriangles_def)
next
  case False
  let ?r0 = "r\<lparr>filledVertex := 0, filledIndex := 0,
               triBatchesToDraw :=
                 (triBatchesToDraw r)(0 := \<lparr>offset = 0, indicesToDraw = 0, cmd = None\<rparr>)\<rparr>"
  let ?s0 = "\<lparr>pass_renderer = ?r0, batchesTotal = 0, prevMaterialID = - 1, firstCommand = True\<rparr>"
  from assms False obtain s where s: "batch_loop (queuedTriangleCommands r) ?s0 = Inr s"
    by (auto simp: drawBatchedTriangles_def Let_def split: sum.splits)
  let ?r2 = "(pass_renderer s)\<lparr>glCalls := glCalls (pass_renderer s) @
               [BufferData (filledVertex (pass_renderer s)) (filledIndex (pass_renderer s))],
             elementBuffer :=
               (\<lambda>k. if 0 \<le> k \<and> k < filledIndex (pass_renderer s)
                    then indices (pass_renderer s) k else None)\<rparr>"
  from assms False s obtain r3
    where d: "draw_loop (map (triBatchesToDraw ?r2) [0..<batchesTotal s + 1]) ?r2 = Inr r3"
      and r': "r' = r3\<lparr>queuedTriangleCommands := [], filledVertex := 0, filledIndex := 0\<rparr>"
    by (auto simp: drawBatchedTriangles_def Let_def split: sum.splits)
  note 1 = batch_loop_frame [OF s, where a = x and b = y and f = f and ix = ix]
  note 2 = draw_loop_frame [OF d, where g = g and k = k and a = a and b = b and p = p]
  have "r'\<lparr>gl := g, glCalls := k, drawnBatches := a, drawnVertices := b, filledVertex := x,
            filledIndex := y, triBatchesToDraw := f, queuedTriangleCommands := q,
            indices := ix, elementBuffer := eb, rendered := p\<rparr> =
        (r3\<lparr>gl := g, glCalls := k, drawnBatches := a, drawnVertices := b, rendered := p\<rparr>)
           \<lparr>filledVertex := x, filledIndex := y, triBatchesToDraw := f, queuedTriangleCommands := q,
            indices := ix, elementBuffer := eb\<rparr>"
    using r' by simp
  also have "\<dots> = (?r2\<lparr>gl := g, glCalls := k, drawnBatches := a, drawnVertices := b, rendered := p\<rparr>)
           \<lparr>filledVertex := x, filledIndex := y, triBatchesToDraw := f, queuedTriangleCommands := q,
            indices := ix, elementBuffer := eb\<rparr>"
    using 2 by simp
  also have "\<dots> = ((pass_renderer s)\<lparr>filledVertex := x, filledIndex := y, triBatchesToDraw := f,
                                        indices := ix\<rparr>)
           \<lparr>gl := g, glCalls := k, drawnBatches := a, drawnVertices := b, queuedTriangleCommands := q,
            elementBuffer := eb, rendered := p\<rparr>"
    by simp
  also have "\<dots> = (?r0\<lparr>filledVertex := x, filledIndex := y, triBatchesToDraw := f, indices := ix\<rparr>)
           \<lparr>gl := g, glCalls := k, drawnBatches := a, drawnVertices := b, queuedTriangleCommands := q,
            elementBuffer := eb, rendered := p\<rparr>"
    using 1 by simp
  also have "\<dots> = r\<lparr>gl := g, glCalls := k, drawnBatches := a, drawnVertices := b, filledVertex := x,
           filledIndex := y, triBatchesToDraw := f, queuedTriangleCommands := q,
           indices := ix, elementBuffer := eb, rendered := p\<rparr>"
    by simp
  finally show ?thesis .
qed

lemma drawBatchedTriangles_empties:
  assumes "drawBatchedTriangles r = Inr r'"
  shows "queuedTriangleCommands r' = []"
    and "queuedTriangleCommands r \<noteq> [] \<Longrightarrow> filledVertex r' = 0 \<and> filledIndex r' = 0"
    and "queuedTriangleCommands r = [] \<Longrightarrow> r' = r"
  using assms
  by (auto simp: drawBatchedTriangles_def Let_def split: if_splits sum.splits)

lemma drawBatchedTriangles_abort:
  assumes "drawBatchedTriangles r = Inl e"
  shows "e = AssertionFailed ''argh... error in logic''"
proof -
  let ?r0 = "r\<lparr>filledVertex := 0, filledIndex := 0,
               triBatchesToDraw :=
                 (triBatchesToDraw r)(0 := \<lparr>offset = 0, indicesToDraw = 0, cmd = None\<rparr>)\<rparr>"
  let ?s0 = "\<lparr>pass_renderer = ?r0, batchesTotal = 0, prevMaterialID = - 1, firstCommand = True\<rparr>"
  from assms have ne: "queuedTriangleCommands r \<noteq> []"
    by (auto simp: drawBatchedTriangles_def)
  show ?thesis
  proof (cases "batch_loop (queuedTriangleCommands r) ?s0")
    case (Inl e')
    with assms ne have "e' = e" by (simp add: drawBatchedTriangles_def Let_def)
    with batch_loop_abort [OF Inl] show ?thesis by simp
  next
    case (Inr s)
    have k: "\<forall>i\<le>batchesTotal s. cmd (triBatchesToDraw (pass_renderer s) i) \<noteq> None"
      using batch_loop_cmds [OF Inr _ ne] by simp
    let ?r2 = "(pass_renderer s)\<lparr>glCalls := glCalls (pass_renderer s) @
               [BufferData (filledVertex (pass_renderer s)) (filledIndex (pass_renderer s))],
             elementBuffer :=
               (\<lambda>k. if 0 \<le> k \<and> k < filledIndex (pass_renderer s)
                    then indices (pass_renderer s) k else None)\<rparr>"
    have "\<forall>b\<in>set (map (triBatchesToDraw ?r2) [0..<batchesTotal s + 1]). cmd b \<noteq> None"
      using k by auto
    from draw_loop_returns [OF this, of ?r2] assms ne Inr show ?thesis
      by (auto simp: drawBatchedTriangles_def Let_def)
  qed
qed

lemma drawBatchedTriangles_calls:
  assumes "drawBatchedTriangles r = Inr r'" "queuedTriangleCommands r \<noteq> []"
  shows "\<exists>draws. glCalls r' = glCalls r @
           BufferData (sum_list (map getVertexCount (queuedTriangleCommands r)))
                      (sum_list (map getIndexCount (queuedTriangleCommands r))) # draws \<and>
           list_all (\<lambda>e. case e of DrawElements c n off \<Rightarrow> True | _ \<Rightarrow> False) draws"
proof -
  let ?r0 = "r\<lparr>filledVertex := 0, filledIndex := 0,
               triBatchesToDraw :=
                 (triBatchesToDraw r)(0 := \<lparr>offset = 0, indicesToDraw = 0, cmd = None\<rparr>)\<rparr>"
  let ?s0 = "\<lparr>pass_renderer = ?r0, batchesTotal = 0, prevMaterialID = - 1, firstCommand = True\<rparr>"
  from assms obtain s where s: "batch_loop (queuedTriangleCommands r) ?s0 = Inr s"
    by (auto simp: drawBatchedTriangles_def Let_def split: sum.splits)
  let ?r2 = "(pass_renderer s)\<lparr>glCalls := glCalls (pass_renderer s) @
               [BufferData (filledVertex (pass_renderer s)) (filledIndex (pass_renderer s))],
             elementBuffer :=
               (\<lambda>k. if 0 \<le> k \<and> k < filledIndex (pass_renderer s)
                    then indices (pass_renderer s) k else None)\<rparr>"
  from assms s obtain r3
    where d: "draw_loop (map (triBatchesToDraw ?r2) [0..<batchesTotal s + 1]) ?r2 = Inr r3"
      and r': "r' = r3\<lparr>queuedTriangleCommands := [], filledVertex := 0, filledIndex := 0\<rparr>"
    by (auto simp: drawBatchedTriangles_def Let_def split: sum.splits)
  have fill: "filledVertex (pass_renderer s) = sum_list (map getVertexCount (queuedTriangleCommands r))"
             "filledIndex (pass_renderer s) = sum_list (map getIndexCount (queuedTriangleCommands r))"
    using batch_loop_fill [OF s] by simp_all
  have calls: "glCalls (pass_renderer s) = glCalls r"
    using arg_cong [OF batch_loop_frame [OF s, where a = 0 and b = 0 and f = "triBatchesToDraw r"],
        of glCalls] by simp
  from draw_loop_calls [OF d] r' fill calls
  have "glCalls r' = glCalls r @
           BufferData (sum_list (map getVertexCount (queuedTriangleCommands r)))
                      (sum_list (map getIndexCount (queuedTriangleCommands r))) #
           map (\<lambda>b. DrawElements (the (cmd b)) (indicesToDraw b) (offset b * 2))
             (map (triBatchesToDraw ?r2) [0..<batchesTotal s + 1])"
    by simp
  moreover have "list_all (\<lambda>e. case e of DrawElements c n off \<Rightarrow> True | _ \<Rightarrow> False)
      (map (\<lambda>b. DrawElements (the (cmd b)) (indicesToDraw b) (offset b * 2))
             (map (triBatchesToDraw ?r2) [0..<batchesTotal s + 1]))"
    by (simp add: list_all_iff)
  ultimately show ?thesis by blast
qed

subsection \<open>Staging within the capacities\<close>

lemma and_then_Some [simp]:
  "and_then (Some (Inr r)) f = f r" "and_then (Some (Inl e)) f = Some (Inl e)"
  "and_then None f = None"
  by (simp_all add: and_then_def)

lemma and_then_returns:
  "and_then x f = Some (Inr r') \<longleftrightarrow> (\<exists>r1. x = Some (Inr r1) \<and> f r1 = Some (Inr r'))"
  by (auto simp: and_then_def split: option.splits sum.splits)

lemma uploads_within_draws:
  assumes "list_all (\<lambda>e. case e of DrawElements c n off \<Rightarrow> True | _ \<Rightarrow> False) draws"
  shows "uploads_within caps draws"
  using assms by (induction draws) (auto simp: uploads_within_def split: gl_event.splits)

lemma stage_one:
  assumes ok: "staging_ok caps r" and up: "uploads_within caps (glCalls r)"
    and c: "fits_staging caps c"
  shows "\<exists>res. processRenderCommand caps visit r (Some c) = Some res \<and>
           (case res of
              Inl e \<Rightarrow> e = AssertionFailed ''argh... error in logic''
            | Inr r' \<Rightarrow> staging_ok caps r' \<and> uploads_within caps (glCalls r'))"
proof (cases "filledVertex r + getVertexCount c > VBO_SIZE caps
              \<or> filledIndex r + getIndexCount c > INDEX_VBO_SIZE caps")
  case False
  have "processRenderCommand caps visit r (Some c) = Some (Inr (queue_it r c))"
    using c False by (simp add: processRenderCommand_def fits_staging_def)
  moreover have "staging_ok caps (queue_it r c)"
    using ok c False by (simp add: staging_ok_def queue_it_def fits_staging_def)
  moreover have "uploads_within caps (glCalls (queue_it r c))"
    using up by (simp add: queue_it_def)
  ultimately show ?thesis by simp
next
  case True
  have ne: "queuedTriangleCommands r \<noteq> []"
    using ok c True by (auto simp: staging_ok_def fits_staging_def)
  have p: "processRenderCommand caps visit r (Some c) =
             and_then (Some (drawBatchedTriangles r)) (\<lambda>r'. Some (Inr (queue_it r' c)))"
    using c True by (simp add: processRenderCommand_def fits_staging_def)
  show ?thesis
  proof (cases "drawBatchedTriangles r")
    case (Inl e)
    with p drawBatchedTriangles_abort [OF Inl] show ?thesis by simp
  next
    case (Inr r1)
    from drawBatchedTriangles_empties [OF Inr] ne
    have e: "queuedTriangleCommands r1 = []" "filledVertex r1 = 0" "filledIndex r1 = 0"
      by simp_all
    from drawBatchedTriangles_calls [OF Inr ne] obtain draws
      where calls: "glCalls r1 = glCalls r @
               BufferData (sum_list (map getVertexCount (queuedTriangleCommands r)))
                          (sum_list (map getIndexCount (queuedTriangleCommands r))) # draws"
        and draws: "list_all (\<lambda>e. case e of DrawElements c n off \<Rightarrow> True | _ \<Rightarrow> False) draws"
      by blast
    have "uploads_within caps (glCalls r1)"
      using up ok uploads_within_draws [OF draws, of caps] calls
      by (simp add: uploads_within_def staging_ok_def)
    moreover have "staging_ok caps (queue_it r1 c)"
      using e c by (simp add: staging_ok_def queue_it_def fits_staging_def)
    ultimately show ?thesis using p Inr by (simp add: queue_it_def)
  qed
qed

lemma stage_all:
  assumes "staging_ok caps r" "uploads_within caps (glCalls r)" "list_all (fits_staging caps) cs"
  shows "\<exists>res. process_all (processRenderCommand caps visit) cs r = Some res \<and>
           (case res of
              Inl e \<Rightarrow> e = AssertionFailed ''argh... error in logic''
            | Inr r' \<Rightarrow> staging_ok caps r' \<and> uploads_within caps (glCalls r'))"
  using assms
proof (induction cs arbitrary: r)
  case Nil
  then show ?case by simp
next
  case (Cons c cs)
  from Cons.prems(3) have c: "fits_staging caps c" and cs: "list_all (fits_staging caps) cs"
    by simp_all
  from stage_one [OF Cons.prems(1,2) c, of visit] obtain res
    where 1: "processRenderCommand caps visit r (Some c) = Some res"
      and 2: "case res of Inl e \<Rightarrow> e = AssertionFailed ''argh... error in logic''
              | Inr r' \<Rightarrow> staging_ok caps r' \<and> uploads_within caps (glCalls r')"
    by blast
  show ?case
  proof (cases res)
    case (Inl e)
    with 1 2 show ?thesis by simp
  next
    case (Inr r1)
    with 2 have "staging_ok caps r1" "uploads_within caps (glCalls r1)" by simp_all
    from Cons.IH [OF this cs] 1 Inr show ?thesis by simp
  qed
qed

text \<open>
  C4. Start from a staging state within the capacities and dispatch triangle commands
  whose own vertex and index counts are below the capacities. The dispatch always
  returns; it ends either in the batcher's own assertion on materials or in a staging
  state that is again within the capacities, with every upload made on the way sized
  within them. When a command's counts would take a fill counter past its capacity, the
  dispatch is the flush of what is staged followed by staging this command alone. A
  triangle command whose own vertex or index count is above the capacity fails an
  assertion.
\<close>

theorem staging_never_exceeds_capacity:
  assumes "staging_ok caps r" "uploads_within caps (glCalls r)" "list_all (fits_staging caps) cs"
  shows "(\<exists>res. process_all (processRenderCommand caps visit) cs r = Some res \<and>
           (case res of
              Inl e \<Rightarrow> e = AssertionFailed ''argh... error in logic''
            | Inr r' \<Rightarrow>
                filledVertex r' \<le> VBO_SIZE caps \<and> filledIndex r' \<le> INDEX_VBO_SIZE caps \<and>
                staging_ok caps r' \<and> uploads_within caps (glCalls r')))
       \<and> (\<forall>c. fits_staging caps c \<and>
                (filledVertex r + getVertexCount c > VBO_SIZE caps \<or>
                 filledIndex r + getIndexCount c > INDEX_VBO_SIZE caps) \<longrightarrow>
              processRenderCommand caps visit r (Some c) =
                (case drawBatchedTriangles r of
                   Inl e \<Rightarrow> Some (Inl e)
                 | Inr r1 \<Rightarrow>
                     Some (Inr (r1\<lparr>queuedTriangleCommands := [c],
                                   filledIndex := getIndexCount c,
                                   filledVertex := getVertexCount c\<rparr>))))
       \<and> (\<forall>c. getType c = TRIANGLES_COMMAND \<and>
                (getVertexCount c > VBO_SIZE caps \<or> getIndexCount c > INDEX_VBO_SIZE caps) \<longrightarrow>
              (\<exists>msg. processRenderCommand caps visit r (Some c) = Some (Inl (AssertionFailed msg))))"
proof (intro conjI allI impI)
  from stage_all [OF assms, of visit]
  show "\<exists>res. process_all (processRenderCommand caps visit) cs r = Some res \<and>
           (case res of
              Inl e \<Rightarrow> e = AssertionFailed ''argh... error in logic''
            | Inr r' \<Rightarrow>
                filledVertex r' \<le> VBO_SIZE caps \<and> filledIndex r' \<le> INDEX_VBO_SIZE caps \<and>
                staging_ok caps r' \<and> uploads_within caps (glCalls r'))"
    by (auto simp: staging_ok_def split: sum.splits)
next
  fix c :: render_command
  assume c: "fits_staging caps c \<and>
                (filledVertex r + getVertexCount c > VBO_SIZE caps \<or>
                 filledIndex r + getIndexCount c > INDEX_VBO_SIZE caps)"
  have ne: "queuedTriangleCommands r \<noteq> []"
    using assms(1) c by (auto simp: staging_ok_def fits_staging_def)
  have p: "processRenderCommand caps visit r (Some c) =
             and_then (Some (drawBatchedTriangles r)) (\<lambda>r'. Some (Inr (queue_it r' c)))"
    using c by (simp add: processRenderCommand_def fits_staging_def)
  show "processRenderCommand caps visit r (Some c) =
                (case drawBatchedTriangles r of
                   Inl e \<Rightarrow> Some (Inl e)
                 | Inr r1 \<Rightarrow>
                     Some (Inr (r1\<lparr>queuedTriangleCommands := [c],
                                   filledIndex := getIndexCount c,
                                   filledVertex := getVertexCount c\<rparr>)))"
  proof (cases "drawBatchedTriangles r")
    case (Inl e)
    with p show ?thesis by simp
  next
    case (Inr r1)
    from drawBatchedTriangles_empties [OF Inr] ne
    have "queuedTriangleCommands r1 = []" "filledVertex r1 = 0" "filledIndex r1 = 0"
      by simp_all
    with p Inr show ?thesis by (simp add: queue_it_def)
  qed
next
  fix c :: render_command
  assume c: "getType c = TRIANGLES_COMMAND \<and>
                (getVertexCount c > VBO_SIZE caps \<or> getIndexCount c > INDEX_VBO_SIZE caps)"
  have "0 \<le> filledVertex r" "0 \<le> filledIndex r"
    using assms(1) by (auto simp: staging_ok_def list_all_iff intro!: sum_list_nonneg)
  with c show "\<exists>msg. processRenderCommand caps visit r (Some c) = Some (Inl (AssertionFailed msg))"
    by (auto simp: processRenderCommand_def)
qed

theorem staging_never_exceeds_capacity_witness:
  "staging_ok small_limits example_renderer
   \<and> uploads_within small_limits (glCalls example_renderer)
   \<and> list_all (fits_staging small_limits)
        [example_command TRIANGLES_COMMAND 1, example_command TRIANGLES_COMMAND 1,
         example_command TRIANGLES_COMMAND 1]
   \<and> (\<exists>r'. process_all (processRenderCommand small_limits (\<lambda>r q. None))
              [example_command TRIANGLES_COMMAND 1, example_command TRIANGLES_COMMAND 1,
               example_command TRIANGLES_COMMAND 1] example_renderer = Some (Inr r') \<and>
            glCalls r' = [BufferData 8 12, DrawElements (example_command TRIANGLES_COMMAND 1) 12 0] \<and>
            queuedTriangleCommands r' = [example_command TRIANGLES_COMMAND 1] \<and>
            filledVertex r' = 4 \<and> filledIndex r' = 6 \<and>
            filledVertex r' \<le> VBO_SIZE small_limits \<and> filledIndex r' \<le> INDEX_VBO_SIZE small_limits)"
proof -
  let ?q = "example_command TRIANGLES_COMMAND 1"
  have h1: "staging_ok small_limits example_renderer"
    by (simp add: staging_ok_def example_renderer_def small_limits_def)
  have h2: "uploads_within small_limits (glCalls example_renderer)"
    by (simp add: uploads_within_def example_renderer_def)
  have h3: "list_all (fits_staging small_limits) [?q, ?q, ?q]"
    by (simp add: fits_staging_def example_command_def small_limits_def)
  have run: "\<exists>r'. process_all (processRenderCommand small_limits (\<lambda>r q. None)) [?q, ?q, ?q]
                 example_renderer = Some (Inr r') \<and>
               glCalls r' = [BufferData 8 12, DrawElements ?q 12 0] \<and>
               queuedTriangleCommands r' = [?q] \<and> filledVertex r' = 4 \<and> filledIndex r' = 6"
    by (simp add: processRenderCommand_def queue_it_def drawBatchedTriangles_def batch_step_def
        fillVerticesAndIndices_def Let_def example_renderer_def example_command_def
        small_limits_def)
  from staging_never_exceeds_capacity [OF h1 h2 h3, of "\<lambda>r q. None"] run
  have "\<exists>r'. process_all (processRenderCommand small_limits (\<lambda>r q. None)) [?q, ?q, ?q]
             example_renderer = Some (Inr r') \<and>
           glCalls r' = [BufferData 8 12, DrawElements ?q 12 0] \<and>
           queuedTriangleCommands r' = [?q] \<and> filledVertex r' = 4 \<and> filledIndex r' = 6 \<and>
           filledVertex r' \<le> VBO_SIZE small_limits \<and> filledIndex r' \<le> INDEX_VBO_SIZE small_limits"
    by auto
  with h1 h2 h3 show ?thesis by blast
qed

subsection \<open>Sorting a queue\<close>

lemma float_less_Num_iff:
  "float_less z (Num b) \<longleftrightarrow> (\<exists>a. z = Num a \<and> a < b)"
  "float_less (Num a) z \<longleftrightarrow> (\<exists>b. z = Num b \<and> a < b)"
  by (cases z; simp)+

lemma not_compare_iff:
  assumes "getGlobalOrder a \<noteq> NaN" "getGlobalOrder b \<noteq> NaN"
  shows "\<not> compareRenderCommand b a \<longleftrightarrow> float_le (getGlobalOrder a) (getGlobalOrder b)"
  using assms
  by (cases "getGlobalOrder a"; cases "getGlobalOrder b") (auto simp: compareRenderCommand_def)

lemma sorted_wrt_float_le:
  assumes "not_nan xs"
  shows "sorted_wrt (\<lambda>a b. \<not> compareRenderCommand b a) xs \<longleftrightarrow>
         sorted_wrt (\<lambda>a b. float_le (getGlobalOrder a) (getGlobalOrder b)) xs"
  using assms
  by (induction xs) (auto simp: not_nan_def list_all_iff not_compare_iff)

lemma not_nan_mset:
  assumes "mset ys = mset xs"
  shows "not_nan ys = not_nan xs"
  using mset_eq_setD [OF assms] by (simp add: not_nan_def list_all_iff)

text \<open>Both insertion sorts meet the contract.\<close>

lemma mset_insert_by: "mset (insert_by after lt x ys) = add_mset x (mset ys)"
  by (induction ys) auto

lemma set_insert_by: "set (insert_by after lt x ys) = insert x (set ys)"
  using mset_insert_by [of after lt x ys, THEN arg_cong, of set_mset] by simp

lemma sorted_insert_by:
  assumes "sorted_wrt (\<lambda>a b. float_le (getGlobalOrder a) (getGlobalOrder b)) ys"
    and "not_nan (x # ys)"
  shows "sorted_wrt (\<lambda>a b. float_le (getGlobalOrder a) (getGlobalOrder b))
           (insert_by after compareRenderCommand x ys)"
  using assms
proof (induction ys)
  case Nil
  then show ?case by simp
next
  case (Cons y ys)
  obtain kx ky where k: "getGlobalOrder x = Num kx" "getGlobalOrder y = Num ky"
    using Cons.prems(2) by (cases "getGlobalOrder x"; cases "getGlobalOrder y")
      (auto simp: not_nan_def)
  have ys: "\<forall>z\<in>set ys. float_le (Num ky) (getGlobalOrder z)"
    using Cons.prems(1) k by simp
  have ih: "sorted_wrt (\<lambda>a b. float_le (getGlobalOrder a) (getGlobalOrder b))
              (insert_by after compareRenderCommand x ys)"
    using Cons by (simp add: not_nan_def)
  show ?case
  proof (cases "if after then \<not> compareRenderCommand x y else compareRenderCommand y x")
    case True
    then have "ky \<le> kx" using k by (auto simp: compareRenderCommand_def split: if_splits)
    with True ih ys k Cons.prems(1) show ?thesis
      by (auto simp: set_insert_by)
  next
    case False
    then have le: "kx \<le> ky" using k by (auto simp: compareRenderCommand_def split: if_splits)
    have "\<forall>z\<in>set ys. float_le (Num kx) (getGlobalOrder z)"
    proof
      fix z assume "z \<in> set ys"
      with ys have "float_le (Num ky) (getGlobalOrder z)" by simp
      with le show "float_le (Num kx) (getGlobalOrder z)"
        by (cases "getGlobalOrder z") auto
    qed
    with False le k Cons.prems(1) show ?thesis by auto
  qed
qed

lemma mset_insertion_sort: "mset (insertion_sort after lt xs) = mset xs"
  by (induction xs) (simp_all add: insertion_sort_def mset_insert_by)

lemma sorted_insertion_sort:
  assumes "not_nan xs"
  shows "sorted_wrt (\<lambda>a b. float_le (getGlobalOrder a) (getGlobalOrder b))
           (insertion_sort after compareRenderCommand xs)"
  using assms
proof (induction xs)
  case Nil
  then show ?case by (simp add: insertion_sort_def)
next
  case (Cons x xs)
  then have s: "sorted_wrt (\<lambda>a b. float_le (getGlobalOrder a) (getGlobalOrder b))
                  (insertion_sort after compareRenderCommand xs)"
    by (simp add: not_nan_def)
  have n: "not_nan (x # insertion_sort after compareRenderCommand xs)"
    using Cons.prems not_nan_mset [OF mset_insertion_sort, of after compareRenderCommand xs]
    by (simp add: not_nan_def)
  from sorted_insert_by [OF s n, of after] show ?case
    by (simp add: insertion_sort_def)
qed

lemma insertion_sort_contract: "std_sort_contract (insertion_sort after)"
  unfolding std_sort_contract_def
proof (intro allI impI conjI)
  fix xs assume n: "not_nan xs"
  show "mset (insertion_sort after compareRenderCommand xs) = mset xs"
    by (rule mset_insertion_sort)
  have "not_nan (insertion_sort after compareRenderCommand xs)"
    using n not_nan_mset [OF mset_insertion_sort, of after compareRenderCommand xs] by simp
  from sorted_wrt_float_le [OF this] sorted_insertion_sort [OF n, of after]
  show "sorted_wrt (\<lambda>a b. \<not> compareRenderCommand b a) (insertion_sort after compareRenderCommand xs)"
    by simp
qed

text \<open>What \<^verbatim>\<open>push_back\<close> and \<^verbatim>\<open>sort\<close> do to the classification.\<close>

lemma classified_push_back:
  assumes "classified q"
  shows "classified (push_back q c)"
  using assms by (auto simp: classified_def push_back_def Let_def)

lemma classified_foldl:
  assumes "classified q"
  shows "classified (foldl push_back q cs)"
  using assms by (induction cs arbitrary: q) (simp_all add: classified_push_back)

lemma classified_not_nan:
  assumes "classified q"
  shows "not_nan (commands q GLOBALZ_NEG)" "not_nan (commands q GLOBALZ_POS)"
  using assms by (auto simp: classified_def not_nan_def list_all_iff)

lemma sort_queue_commands:
  "commands (sort_queue srt q) GLOBALZ_NEG = srt compareRenderCommand (commands q GLOBALZ_NEG)"
  "commands (sort_queue srt q) GLOBALZ_POS = srt compareRenderCommand (commands q GLOBALZ_POS)"
  "commands (sort_queue srt q) GLOBALZ_ZERO = commands q GLOBALZ_ZERO"
  "commands (sort_queue srt q) OPAQUE_3D = commands q OPAQUE_3D"
  "commands (sort_queue srt q) TRANSPARENT_3D = commands q TRANSPARENT_3D"
  by (simp_all add: sort_queue_def Let_def)

lemma sort_queue_sorted:
  assumes "std_sort_contract srt" "not_nan (commands q g)" "g = GLOBALZ_NEG \<or> g = GLOBALZ_POS"
  shows "mset (commands (sort_queue srt q) g) = mset (commands q g)"
    and "sorted_wrt (\<lambda>a b. float_le (getGlobalOrder a) (getGlobalOrder b))
           (commands (sort_queue srt q) g)"
proof -
  have c: "commands (sort_queue srt q) g = srt compareRenderCommand (commands q g)"
    using assms(3) by (auto simp: sort_queue_commands)
  from assms(1,2) have m: "mset (srt compareRenderCommand (commands q g)) = mset (commands q g)"
    and s: "sorted_wrt (\<lambda>a b. \<not> compareRenderCommand b a) (srt compareRenderCommand (commands q g))"
    by (simp_all add: std_sort_contract_def)
  show "mset (commands (sort_queue srt q) g) = mset (commands q g)" using c m by simp
  have "not_nan (srt compareRenderCommand (commands q g))"
    using not_nan_mset [OF m] assms(2) by simp
  from sorted_wrt_float_le [OF this] s c
  show "sorted_wrt (\<lambda>a b. float_le (getGlobalOrder a) (getGlobalOrder b))
           (commands (sort_queue srt q) g)"
    by simp
qed

lemma classified_sort_queue:
  assumes "std_sort_contract srt" "classified q"
  shows "classified (sort_queue srt q)"
proof -
  note n = classified_not_nan [OF assms(2)]
  have "set (commands (sort_queue srt q) GLOBALZ_NEG) = set (commands q GLOBALZ_NEG)"
    using mset_eq_setD [OF sort_queue_sorted(1) [OF assms(1) n(1)]] by simp
  moreover have "set (commands (sort_queue srt q) GLOBALZ_POS) = set (commands q GLOBALZ_POS)"
    using mset_eq_setD [OF sort_queue_sorted(1) [OF assms(1) n(2)]] by simp
  ultimately show ?thesis
    using assms(2) by (simp add: classified_def list_all_iff sort_queue_commands)
qed

text \<open>Where the flattened index finds the commands of the three classified sub-queues.\<close>

lemma queue_at_positions:
  shows "i < length (commands q GLOBALZ_NEG) \<Longrightarrow>
           queue_at q (int i) = Inr (commands q GLOBALZ_NEG ! i)"
    and "i < length (commands q GLOBALZ_ZERO) \<Longrightarrow>
           queue_at q (int (length (commands q GLOBALZ_NEG) + length (commands q OPAQUE_3D) +
                            length (commands q TRANSPARENT_3D) + i)) =
           Inr (commands q GLOBALZ_ZERO ! i)"
    and "i < length (commands q GLOBALZ_POS) \<Longrightarrow>
           queue_at q (int (length (commands q GLOBALZ_NEG) + length (commands q OPAQUE_3D) +
                            length (commands q TRANSPARENT_3D) + length (commands q GLOBALZ_ZERO) + i)) =
           Inr (commands q GLOBALZ_POS ! i)"
  by (simp_all add: queue_at_def QUEUE_GROUPS_def)

subsection \<open>The order of the sweep\<close>

text \<open>
  With nothing staged, a sweep over a queue of custom, batch and primitive commands lets
  them submit their GL work in the order negative, opaque, transparent, zero, positive,
  and within each sub-queue in the order of its vector.
\<close>

lemma process_all_executes:
  assumes "queuedTriangleCommands r = []"
    and "list_all (\<lambda>c. getType c = CUSTOM_COMMAND \<or> getType c = BATCH_COMMAND \<or>
                       getType c = PRIMITIVE_COMMAND) cs"
  shows "\<exists>r'. process_all (processRenderCommand caps visit) cs r = Some (Inr r') \<and>
           glCalls r' = glCalls r @ map Execute cs \<and> queuedTriangleCommands r' = [] \<and>
           renderGroups r' = renderGroups r \<and> isDepthTestFor2D r' = isDepthTestFor2D r"
  using assms
proof (induction cs arbitrary: r)
  case Nil
  then show ?case by simp
next
  case (Cons c cs)
  have "processRenderCommand caps visit r (Some c) = Some (Inr (run_execute r c))"
    using Cons.prems
    by (auto simp: processRenderCommand_def flush_def drawBatchedTriangles_def)
  moreover from Cons.IH [of "run_execute r c"] Cons.prems
  obtain r' where "process_all (processRenderCommand caps visit) cs (run_execute r c) = Some (Inr r')"
    "glCalls r' = glCalls (run_execute r c) @ map Execute cs" "queuedTriangleCommands r' = []"
    "renderGroups r' = renderGroups (run_execute r c)"
    "isDepthTestFor2D r' = isDepthTestFor2D (run_execute r c)"
    by (auto simp: run_execute_def)
  ultimately show ?case by (simp add: run_execute_def)
qed

lemma visit_group_executes:
  assumes "queuedTriangleCommands r = []"
    and "list_all (\<lambda>c. getType c = CUSTOM_COMMAND \<or> getType c = BATCH_COMMAND \<or>
                       getType c = PRIMITIVE_COMMAND) (commands (renderGroups r ! i) g)"
  shows "\<exists>r'. visit_group (processRenderCommand caps visit) g i r = Some (Inr r') \<and>
           glCalls r' = glCalls r @ map Execute (commands (renderGroups r ! i) g) \<and>
           queuedTriangleCommands r' = [] \<and> renderGroups r' = renderGroups r \<and>
           isDepthTestFor2D r' = isDepthTestFor2D r"
proof (cases "commands (renderGroups r ! i) g = []")
  case True
  with assms(1) show ?thesis by (simp add: visit_group_def)
next
  case False
  let ?r = "r\<lparr>gl := group_state g (isDepthTestFor2D r) (gl r)\<rparr>"
  from process_all_executes [of ?r _ caps visit] assms
  obtain r' where "process_all (processRenderCommand caps visit) (commands (renderGroups r ! i) g) ?r =
        Some (Inr r')"
    "glCalls r' = glCalls r @ map Execute (commands (renderGroups r ! i) g)"
    "queuedTriangleCommands r' = []" "renderGroups r' = renderGroups r"
    "isDepthTestFor2D r' = isDepthTestFor2D r"
    by auto
  with False show ?thesis
    by (simp add: visit_group_def Let_def flush_def drawBatchedTriangles_def)
qed

lemma sweep_executes_in_order:
  assumes q: "0 \<le> qid" "nat qid < length (renderGroups r)"
    and e: "queuedTriangleCommands r = []"
    and k: "list_all (\<lambda>c. getType c = CUSTOM_COMMAND \<or> getType c = BATCH_COMMAND \<or>
                          getType c = PRIMITIVE_COMMAND)
              (all_commands (commands (renderGroups r ! nat qid)))"
  shows "\<exists>r'. visitRenderQueue (Suc n) caps r qid = Some (Inr r') \<and>
           glCalls r' = glCalls r @ map Execute (all_commands (commands (renderGroups r ! nat qid)))"
proof -
  let ?i = "nat qid"
  let ?c = "commands (renderGroups r ! ?i)"
  let ?p = "processRenderCommand caps (visitRenderQueue n caps)"
  let ?K = "list_all (\<lambda>c. getType c = CUSTOM_COMMAND \<or> getType c = BATCH_COMMAND \<or>
                          getType c = PRIMITIVE_COMMAND)"
  let ?r0 = "r\<lparr>renderGroups := (renderGroups r)[?i := saveRenderState (gl r) (renderGroups r ! ?i)]\<rparr>"
  have c0: "commands (renderGroups ?r0 ! ?i) = ?c"
    using q(2) by (simp add: saveRenderState_def)
  have kk: "?K (?c GLOBALZ_NEG)" "?K (?c OPAQUE_3D)" "?K (?c TRANSPARENT_3D)"
    "?K (?c GLOBALZ_ZERO)" "?K (?c GLOBALZ_POS)"
    using k by (simp_all add: all_commands_def QUEUE_GROUPS_def)
  from visit_group_executes [of ?r0 ?i GLOBALZ_NEG caps] e kk(1) c0
  obtain r1 where 1: "visit_group ?p GLOBALZ_NEG ?i ?r0 = Some (Inr r1)"
    and a1: "glCalls r1 = glCalls r @ map Execute (?c GLOBALZ_NEG)"
    and b1: "queuedTriangleCommands r1 = []" "renderGroups r1 = renderGroups ?r0"
    by auto
  from visit_group_executes [of r1 ?i OPAQUE_3D caps] b1 kk(2) c0
  obtain r2 where 2: "visit_group ?p OPAQUE_3D ?i r1 = Some (Inr r2)"
    and a2: "glCalls r2 = glCalls r1 @ map Execute (?c OPAQUE_3D)"
    and b2: "queuedTriangleCommands r2 = []" "renderGroups r2 = renderGroups ?r0"
    by auto
  from visit_group_executes [of r2 ?i TRANSPARENT_3D caps] b2 kk(3) c0
  obtain r3 where 3: "visit_group ?p TRANSPARENT_3D ?i r2 = Some (Inr r3)"
    and a3: "glCalls r3 = glCalls r2 @ map Execute (?c TRANSPARENT_3D)"
    and b3: "queuedTriangleCommands r3 = []" "renderGroups r3 = renderGroups ?r0"
    by auto
  from visit_group_executes [of r3 ?i GLOBALZ_ZERO caps] b3 kk(4) c0
  obtain r4 where 4: "visit_group ?p GLOBALZ_ZERO ?i r3 = Some (Inr r4)"
    and a4: "glCalls r4 = glCalls r3 @ map Execute (?c GLOBALZ_ZERO)"
    and b4: "queuedTriangleCommands r4 = []" "renderGroups r4 = renderGroups ?r0"
    by auto
  from visit_group_executes [of r4 ?i GLOBALZ_POS caps] b4 kk(5) c0
  obtain r5 where 5: "visit_group ?p GLOBALZ_POS ?i r4 = Some (Inr r5)"
    and a5: "glCalls r5 = glCalls r4 @ map Execute (?c GLOBALZ_POS)"
    by auto
  have "visitRenderQueue (Suc n) caps r qid =
          Some (Inr (r5\<lparr>gl := restoreRenderState (renderGroups r5 ! ?i) (gl r5)\<rparr>))"
    using q 1 2 3 4 5 by (simp add: visit_body_def Let_def)
  moreover have "glCalls r5 = glCalls r @ map Execute (all_commands ?c)"
    using a1 a2 a3 a4 a5 by (simp add: all_commands_def QUEUE_GROUPS_def)
  ultimately show ?thesis by simp
qed

text \<open>
  C5. Take any queue that is classified (the empty one is), submit any commands with
  \<^verbatim>\<open>push_back\<close> and sort, with any \<^verbatim>\<open>std::sort\<close> that keeps its contract. Then the
  global order is non-decreasing along the negative and along the positive sub-queue,
  the queue is still classified (negative orders in the negative sub-queue, positive ones
  in the positive one, the others in the zero one), and under flattened indexing the
  negative sub-queue occupies the first indices, the zero sub-queue the indices after the
  two 3D sub-queues, and the positive sub-queue the indices after that. A sweep goes
  through the sub-queues in the same order: when the queue holds custom, batch and
  primitive commands only and nothing is staged, their GL work is logged in the order
  negative, opaque, transparent, zero, positive.
\<close>

theorem sorted_queue_order:
  assumes "std_sort_contract srt" "classified q0" "q = sort_queue srt (foldl push_back q0 cs)"
  shows "sorted_wrt (\<lambda>a b. float_le (getGlobalOrder a) (getGlobalOrder b)) (commands q GLOBALZ_NEG)
       \<and> sorted_wrt (\<lambda>a b. float_le (getGlobalOrder a) (getGlobalOrder b)) (commands q GLOBALZ_POS)
       \<and> classified q
       \<and> (\<forall>i. i < length (commands q GLOBALZ_NEG) \<longrightarrow>
             queue_at q (int i) = Inr (commands q GLOBALZ_NEG ! i))
       \<and> (\<forall>i. i < length (commands q GLOBALZ_ZERO) \<longrightarrow>
             queue_at q (int (length (commands q GLOBALZ_NEG) + length (commands q OPAQUE_3D) +
                              length (commands q TRANSPARENT_3D) + i)) =
             Inr (commands q GLOBALZ_ZERO ! i))
       \<and> (\<forall>i. i < length (commands q GLOBALZ_POS) \<longrightarrow>
             queue_at q (int (length (commands q GLOBALZ_NEG) + length (commands q OPAQUE_3D) +
                              length (commands q TRANSPARENT_3D) +
                              length (commands q GLOBALZ_ZERO) + i)) =
             Inr (commands q GLOBALZ_POS ! i))
       \<and> (\<forall>r qid n caps.
             0 \<le> qid \<and> nat qid < length (renderGroups r) \<and> renderGroups r ! nat qid = q \<and>
             queuedTriangleCommands r = [] \<and>
             list_all (\<lambda>c. getType c = CUSTOM_COMMAND \<or> getType c = BATCH_COMMAND \<or>
                            getType c = PRIMITIVE_COMMAND) (all_commands (commands q)) \<longrightarrow>
             (\<exists>r'. visitRenderQueue (Suc n) caps r qid = Some (Inr r') \<and>
                    glCalls r' = glCalls r @
                      map Execute (commands q GLOBALZ_NEG @ commands q OPAQUE_3D @
                                   commands q TRANSPARENT_3D @ commands q GLOBALZ_ZERO @
                                   commands q GLOBALZ_POS)))"
proof -
  let ?p = "foldl push_back q0 cs"
  have c: "classified ?p" using assms(2) by (rule classified_foldl)
  note n = classified_not_nan [OF c]
  have s1: "sorted_wrt (\<lambda>a b. float_le (getGlobalOrder a) (getGlobalOrder b)) (commands q GLOBALZ_NEG)"
    using sort_queue_sorted(2) [OF assms(1) n(1)] assms(3) by simp
  have s2: "sorted_wrt (\<lambda>a b. float_le (getGlobalOrder a) (getGlobalOrder b)) (commands q GLOBALZ_POS)"
    using sort_queue_sorted(2) [OF assms(1) n(2)] assms(3) by simp
  have s3: "classified q"
    using classified_sort_queue [OF assms(1) c] assms(3) by simp
  have s4: "\<forall>r qid n caps.
             0 \<le> qid \<and> nat qid < length (renderGroups r) \<and> renderGroups r ! nat qid = q \<and>
             queuedTriangleCommands r = [] \<and>
             list_all (\<lambda>c. getType c = CUSTOM_COMMAND \<or> getType c = BATCH_COMMAND \<or>
                            getType c = PRIMITIVE_COMMAND) (all_commands (commands q)) \<longrightarrow>
             (\<exists>r'. visitRenderQueue (Suc n) caps r qid = Some (Inr r') \<and>
                    glCalls r' = glCalls r @
                      map Execute (commands q GLOBALZ_NEG @ commands q OPAQUE_3D @
                                   commands q TRANSPARENT_3D @ commands q GLOBALZ_ZERO @
                                   commands q GLOBALZ_POS))"
  proof (intro allI impI)
    fix r :: renderer and qid :: int and n :: nat and caps :: limits
    assume h: "0 \<le> qid \<and> nat qid < length (renderGroups r) \<and> renderGroups r ! nat qid = q \<and>
             queuedTriangleCommands r = [] \<and>
             list_all (\<lambda>c. getType c = CUSTOM_COMMAND \<or> getType c = BATCH_COMMAND \<or>
                            getType c = PRIMITIVE_COMMAND) (all_commands (commands q))"
    from sweep_executes_in_order [of qid r n caps] h
    show "\<exists>r'. visitRenderQueue (Suc n) caps r qid = Some (Inr r') \<and>
                    glCalls r' = glCalls r @
                      map Execute (commands q GLOBALZ_NEG @ commands q OPAQUE_3D @
                                   commands q TRANSPARENT_3D @ commands q GLOBALZ_ZERO @
                                   commands q GLOBALZ_POS)"
      by (simp add: all_commands_def QUEUE_GROUPS_def)
  qed
  from s1 s2 s3 s4 show ?thesis
    using queue_at_positions [of _ q] by (intro conjI) (assumption | blast)+
qed

theorem sorted_queue_order_witness:
  "std_sort_contract (insertion_sort False)
   \<and> classified example_queue
   \<and> sorted_wrt (\<lambda>a b. float_le (getGlobalOrder a) (getGlobalOrder b))
        (commands (sort_queue (insertion_sort False)
           (foldl push_back example_queue
              [ordered_command 2 1, ordered_command (- 1) 2, ordered_command 0 3,
               ordered_command (- 3) 4])) GLOBALZ_NEG)
   \<and> commands (sort_queue (insertion_sort False)
           (foldl push_back example_queue
              [ordered_command 2 1, ordered_command (- 1) 2, ordered_command 0 3,
               ordered_command (- 3) 4])) GLOBALZ_NEG =
       [ordered_command (- 3) 4, ordered_command (- 1) 2]
   \<and> queue_at (sort_queue (insertion_sort False)
           (foldl push_back example_queue
              [ordered_command 2 1, ordered_command (- 1) 2, ordered_command 0 3,
               ordered_command (- 3) 4])) 2 = Inr (ordered_command 0 3)
   \<and> queue_at (sort_queue (insertion_sort False)
           (foldl push_back example_queue
              [ordered_command 2 1, ordered_command (- 1) 2, ordered_command 0 3,
               ordered_command (- 3) 4])) 3 = Inr (ordered_command 2 1)
   \<and> (\<exists>r'. visitRenderQueue (Suc 0) example_limits
              (example_renderer\<lparr>renderGroups :=
                 [sort_queue (insertion_sort False)
                    (foldl push_back example_queue
                       [ordered_command 2 1, ordered_command (- 1) 2, ordered_command 0 3,
                        ordered_command (- 3) 4])]\<rparr>) 0 = Some (Inr r') \<and>
            glCalls r' =
              [Execute (ordered_command (- 3) 4), Execute (ordered_command (- 1) 2),
               Execute (ordered_command 0 3), Execute (ordered_command 2 1)])"
proof -
  let ?cs = "[ordered_command 2 1, ordered_command (- 1) 2, ordered_command 0 3,
              ordered_command (- 3) 4]"
  let ?q = "sort_queue (insertion_sort False) (foldl push_back example_queue ?cs)"
  let ?r = "example_renderer\<lparr>renderGroups := [?q]\<rparr>"
  have h1: "std_sort_contract (insertion_sort False)" by (rule insertion_sort_contract)
  have h2: "classified example_queue"
    by (simp add: classified_def example_queue_def new_queue_def)
  have neg: "commands ?q GLOBALZ_NEG = [ordered_command (- 3) 4, ordered_command (- 1) 2]"
    and zero: "commands ?q GLOBALZ_ZERO = [ordered_command 0 3]"
    and pos: "commands ?q GLOBALZ_POS = [ordered_command 2 1]"
    and o3: "commands ?q OPAQUE_3D = []" and t3: "commands ?q TRANSPARENT_3D = []"
    by (simp_all add: sort_queue_def insertion_sort_def push_back_def example_queue_def
        new_queue_def ordered_command_def example_command_def compareRenderCommand_def Let_def)
  note t = sorted_queue_order [OF h1 h2 refl, of ?cs]
  have s: "sorted_wrt (\<lambda>a b. float_le (getGlobalOrder a) (getGlobalOrder b)) (commands ?q GLOBALZ_NEG)"
    using t by blast
  from t have "0 < length (commands ?q GLOBALZ_ZERO) \<longrightarrow>
      queue_at ?q (int (length (commands ?q GLOBALZ_NEG) + length (commands ?q OPAQUE_3D) +
                        length (commands ?q TRANSPARENT_3D) + 0)) = Inr (commands ?q GLOBALZ_ZERO ! 0)"
    by blast
  then have a2: "queue_at ?q 2 = Inr (ordered_command 0 3)"
    unfolding neg zero o3 t3 by simp
  from t have "0 < length (commands ?q GLOBALZ_POS) \<longrightarrow>
      queue_at ?q (int (length (commands ?q GLOBALZ_NEG) + length (commands ?q OPAQUE_3D) +
                        length (commands ?q TRANSPARENT_3D) + length (commands ?q GLOBALZ_ZERO) + 0)) =
      Inr (commands ?q GLOBALZ_POS ! 0)"
    by blast
  then have a3: "queue_at ?q 3 = Inr (ordered_command 2 1)"
    unfolding neg zero pos o3 t3 by simp
  have k: "list_all (\<lambda>c. getType c = CUSTOM_COMMAND \<or> getType c = BATCH_COMMAND \<or>
                          getType c = PRIMITIVE_COMMAND) (all_commands (commands ?q))"
    unfolding all_commands_def QUEUE_GROUPS_def list.map concat.simps neg zero pos o3 t3
    by (simp add: ordered_command_def example_command_def)
  have g: "(0::int) \<le> 0 \<and> nat 0 < length (renderGroups ?r) \<and> renderGroups ?r ! nat 0 = ?q \<and>
           queuedTriangleCommands ?r = [] \<and> glCalls ?r = []"
    by (simp add: example_renderer_def)
  from t have "0 \<le> (0::int) \<and> nat 0 < length (renderGroups ?r) \<and> renderGroups ?r ! nat 0 = ?q \<and>
             queuedTriangleCommands ?r = [] \<and>
             list_all (\<lambda>c. getType c = CUSTOM_COMMAND \<or> getType c = BATCH_COMMAND \<or>
                            getType c = PRIMITIVE_COMMAND) (all_commands (commands ?q)) \<longrightarrow>
             (\<exists>r'. visitRenderQueue (Suc 0) example_limits ?r 0 = Some (Inr r') \<and>
                    glCalls r' = glCalls ?r @
                      map Execute (commands ?q GLOBALZ_NEG @ commands ?q OPAQUE_3D @
                                   commands ?q TRANSPARENT_3D @ commands ?q GLOBALZ_ZERO @
                                   commands ?q GLOBALZ_POS))"
    by blast
  with g k have "\<exists>r'. visitRenderQueue (Suc 0) example_limits ?r 0 = Some (Inr r') \<and>
                    glCalls r' = glCalls ?r @
                      map Execute (commands ?q GLOBALZ_NEG @ commands ?q OPAQUE_3D @
                                   commands ?q TRANSPARENT_3D @ commands ?q GLOBALZ_ZERO @
                                   commands ?q GLOBALZ_POS)"
    by blast
  then have d: "\<exists>r'. visitRenderQueue (Suc 0) example_limits ?r 0 = Some (Inr r') \<and>
            glCalls r' =
              [Execute (ordered_command (- 3) 4), Execute (ordered_command (- 1) 2),
               Execute (ordered_command 0 3), Execute (ordered_command 2 1)]"
    unfolding neg zero pos o3 t3 using g by simp
  from h1 h2 s neg a2 a3 d show ?thesis by blast
qed

text \<open>
  C6, as the code has it. \<^verbatim>\<open>sort()\<close> rearranges the negative and the positive
  sub-queue into ascending global order; each stays a rearrangement of what it was, and
  the order among commands with equal global order is whatever \<^verbatim>\<open>std::sort\<close> makes it.
  The zero, opaque and transparent sub-queues and the state snapshot are left as they are.
\<close>

theorem sort_rearranges_signed_queues_only:
  assumes "std_sort_contract srt"
    and "not_nan (commands q GLOBALZ_NEG)" "not_nan (commands q GLOBALZ_POS)"
  shows "mset (commands (sort_queue srt q) GLOBALZ_NEG) = mset (commands q GLOBALZ_NEG)
       \<and> sorted_wrt (\<lambda>a b. float_le (getGlobalOrder a) (getGlobalOrder b))
            (commands (sort_queue srt q) GLOBALZ_NEG)
       \<and> mset (commands (sort_queue srt q) GLOBALZ_POS) = mset (commands q GLOBALZ_POS)
       \<and> sorted_wrt (\<lambda>a b. float_le (getGlobalOrder a) (getGlobalOrder b))
            (commands (sort_queue srt q) GLOBALZ_POS)
       \<and> commands (sort_queue srt q) GLOBALZ_ZERO = commands q GLOBALZ_ZERO
       \<and> commands (sort_queue srt q) OPAQUE_3D = commands q OPAQUE_3D
       \<and> commands (sort_queue srt q) TRANSPARENT_3D = commands q TRANSPARENT_3D
       \<and> isDepthEnabled (sort_queue srt q) = isDepthEnabled q
       \<and> isCullEnabled (sort_queue srt q) = isCullEnabled q
       \<and> isDepthWrite (sort_queue srt q) = isDepthWrite q"
  using sort_queue_sorted [OF assms(1,2)] sort_queue_sorted [OF assms(1,3)]
  by (simp add: sort_queue_commands) (simp add: sort_queue_def Let_def)

theorem sort_rearranges_signed_queues_only_witness:
  "std_sort_contract (insertion_sort False)
   \<and> not_nan (commands (foldl push_back example_queue
        [ordered_command (- 1) 1, ordered_command 0 2, ordered_command (- 2) 3, ordered_command 0 4])
        GLOBALZ_NEG)
   \<and> not_nan (commands (foldl push_back example_queue
        [ordered_command (- 1) 1, ordered_command 0 2, ordered_command (- 2) 3, ordered_command 0 4])
        GLOBALZ_POS)
   \<and> commands (sort_queue (insertion_sort False) (foldl push_back example_queue
        [ordered_command (- 1) 1, ordered_command 0 2, ordered_command (- 2) 3, ordered_command 0 4]))
        GLOBALZ_NEG = [ordered_command (- 2) 3, ordered_command (- 1) 1]
   \<and> commands (sort_queue (insertion_sort False) (foldl push_back example_queue
        [ordered_command (- 1) 1, ordered_command 0 2, ordered_command (- 2) 3, ordered_command 0 4]))
        GLOBALZ_ZERO = [ordered_command 0 2, ordered_command 0 4]"
proof -
  let ?p = "foldl push_back example_queue
        [ordered_command (- 1) 1, ordered_command 0 2, ordered_command (- 2) 3, ordered_command 0 4]"
  have h1: "std_sort_contract (insertion_sort False)" by (rule insertion_sort_contract)
  have neg: "commands ?p GLOBALZ_NEG = [ordered_command (- 1) 1, ordered_command (- 2) 3]"
    and pos: "commands ?p GLOBALZ_POS = []"
    and zero: "commands ?p GLOBALZ_ZERO = [ordered_command 0 2, ordered_command 0 4]"
    by (simp_all add: push_back_def example_queue_def new_queue_def ordered_command_def
        example_command_def Let_def)
  have h2: "not_nan (commands ?p GLOBALZ_NEG)" and h3: "not_nan (commands ?p GLOBALZ_POS)"
    unfolding neg pos by (simp_all add: not_nan_def ordered_command_def)
  have s: "commands (sort_queue (insertion_sort False) ?p) GLOBALZ_NEG =
             [ordered_command (- 2) 3, ordered_command (- 1) 1]"
    unfolding sort_queue_commands neg
    by (simp add: insertion_sort_def compareRenderCommand_def ordered_command_def)
  from sort_rearranges_signed_queues_only [OF h1 h2 h3]
  have "commands (sort_queue (insertion_sort False) ?p) GLOBALZ_ZERO = commands ?p GLOBALZ_ZERO"
    by blast
  then have z: "commands (sort_queue (insertion_sort False) ?p) GLOBALZ_ZERO =
             [ordered_command 0 2, ordered_command 0 4]"
    unfolding zero .
  from h1 h2 h3 s z show ?thesis by blast
qed

text \<open>
  The contract of \<^verbatim>\<open>std::sort\<close> does not include stability. The insertion sort that
  puts an element behind its equivalents keeps the contract, and it swaps two commands of
  equal global order \<open>-1\<close> that were submitted in the order \<open>a, b\<close>.
\<close>

lemma contract_admits_swapping_equal_orders:
  "std_sort_contract (insertion_sort True)
   \<and> commands (foldl push_back example_queue [ordered_command (- 1) 1, ordered_command (- 1) 2])
        GLOBALZ_NEG = [ordered_command (- 1) 1, ordered_command (- 1) 2]
   \<and> getGlobalOrder (ordered_command (- 1) 1) = getGlobalOrder (ordered_command (- 1) 2)
   \<and> ordered_command (- 1) 1 \<noteq> ordered_command (- 1) 2
   \<and> commands (sort_queue (insertion_sort True)
         (foldl push_back example_queue [ordered_command (- 1) 1, ordered_command (- 1) 2]))
        GLOBALZ_NEG = [ordered_command (- 1) 2, ordered_command (- 1) 1]"
proof -
  have "std_sort_contract (insertion_sort True)" by (rule insertion_sort_contract)
  moreover
  have "commands (foldl push_back example_queue [ordered_command (- 1) 1, ordered_command (- 1) 2])
        GLOBALZ_NEG = [ordered_command (- 1) 1, ordered_command (- 1) 2]"
    by (simp add: push_back_def example_queue_def new_queue_def ordered_command_def
        example_command_def Let_def)
  moreover
  have "getGlobalOrder (ordered_command (- 1) 1) = getGlobalOrder (ordered_command (- 1) 2)"
    "ordered_command (- 1) 1 \<noteq> ordered_command (- 1) 2"
    by (simp_all add: ordered_command_def example_command_def)
  moreover
  have "commands (sort_queue (insertion_sort True)
         (foldl push_back example_queue [ordered_command (- 1) 1, ordered_command (- 1) 2]))
        GLOBALZ_NEG = [ordered_command (- 1) 2, ordered_command (- 1) 1]"
    by (simp add: sort_queue_def insertion_sort_def push_back_def example_queue_def new_queue_def
        ordered_command_def example_command_def compareRenderCommand_def Let_def)
  ultimately show ?thesis by blast
qed

text \<open>
  What the program does with equal global orders is what the \<^verbatim>\<open>std::sort\<close> of its C++
  library does. With the sort of the GNU library, 17 commands of global order \<open>-1\<close>,
  submitted with the material identifiers 0 to 16 in this order, leave \<^verbatim>\<open>sort()\<close> in
  another order: the range is longer than the threshold of 16, so it is partitioned once;
  the element in the middle is swapped to the front as the pivot, and the partition
  swaps the equal elements pairwise from both ends. (Up to 16 commands this sort is an
  insertion sort and keeps the submission order.)
\<close>

theorem gnu_sort_reorders_equal_orders:
  "map getMaterialID
     (commands
        (foldl push_back example_queue
           [ordered_command (- 1) 0, ordered_command (- 1) 1, ordered_command (- 1) 2,
            ordered_command (- 1) 3, ordered_command (- 1) 4, ordered_command (- 1) 5,
            ordered_command (- 1) 6, ordered_command (- 1) 7, ordered_command (- 1) 8,
            ordered_command (- 1) 9, ordered_command (- 1) 10, ordered_command (- 1) 11,
            ordered_command (- 1) 12, ordered_command (- 1) 13, ordered_command (- 1) 14,
            ordered_command (- 1) 15, ordered_command (- 1) 16]) GLOBALZ_NEG) =
     [0, 1, 2, 3, 4, 5, 6, 7, 8, 9, 10, 11, 12, 13, 14, 15, 16]
   \<and> map getMaterialID
     (commands
        (sort_queue gnu_sort
           (foldl push_back example_queue
              [ordered_command (- 1) 0, ordered_command (- 1) 1, ordered_command (- 1) 2,
               ordered_command (- 1) 3, ordered_command (- 1) 4, ordered_command (- 1) 5,
               ordered_command (- 1) 6, ordered_command (- 1) 7, ordered_command (- 1) 8,
               ordered_command (- 1) 9, ordered_command (- 1) 10, ordered_command (- 1) 11,
               ordered_command (- 1) 12, ordered_command (- 1) 13, ordered_command (- 1) 14,
               ordered_command (- 1) 15, ordered_command (- 1) 16])) GLOBALZ_NEG) =
     [8, 16, 15, 14, 13, 12, 11, 10, 9, 0, 7, 6, 5, 4, 3, 2, 1]
   \<and> map getGlobalOrder
     (commands
        (sort_queue gnu_sort
           (foldl push_back example_queue
              [ordered_command (- 1) 0, ordered_command (- 1) 1, ordered_command (- 1) 2,
               ordered_command (- 1) 3, ordered_command (- 1) 4, ordered_command (- 1) 5,
               ordered_command (- 1) 6, ordered_command (- 1) 7, ordered_command (- 1) 8,
               ordered_command (- 1) 9, ordered_command (- 1) 10, ordered_command (- 1) 11,
               ordered_command (- 1) 12, ordered_command (- 1) 13, ordered_command (- 1) 14,
               ordered_command (- 1) 15, ordered_command (- 1) 16])) GLOBALZ_NEG) =
     replicate 17 (Num (- 1))
   \<and> map getMaterialID
     (commands
        (sort_queue gnu_sort
           (foldl push_back example_queue
              [ordered_command (- 1) 1, ordered_command (- 3) 2, ordered_command (- 1) 3,
               ordered_command (- 2) 4])) GLOBALZ_NEG) = [2, 4, 1, 3]"
  by code_simp

subsection \<open>The sweep restores the GL state\<close>

lemma changes_only_refl: "changes_only X r r"
  by (simp add: changes_only_def)

lemma changes_only_local:
  assumes "renderGroups r' = renderGroups r"
  shows "changes_only X r r'"
  using assms by (simp add: changes_only_def)

lemma changes_only_length:
  assumes "changes_only X r r'"
  shows "length (renderGroups r') = length (renderGroups r)"
  using assms map_eq_imp_length_eq unfolding changes_only_def by blast

lemma changes_only_trans:
  assumes "changes_only X r r1" "changes_only Y r1 r2"
  shows "changes_only (\<lambda>p. X p \<or> Y p) r r2"
proof -
  have l: "length (renderGroups r1) = length (renderGroups r)"
    using changes_only_length [OF assms(1)] .
  show ?thesis
    using assms l unfolding changes_only_def by (metis (no_types, lifting))
qed

lemma changes_only_mono:
  assumes "changes_only X r r'" "\<And>p. X p \<Longrightarrow> Y p"
  shows "changes_only Y r r'"
  using assms unfolding changes_only_def by blast

lemma nesting_within_mono:
  assumes "nesting_within n cs q"
  shows "nesting_within (Suc n) cs q"
  using assms
proof (induction n arbitrary: q)
  case 0
  then show ?case by simp
next
  case (Suc n)
  then show ?case by (auto simp: list_all_iff)
qed

lemma nesting_within_descend:
  assumes "\<And>k. nesting_within (Suc k) cs q \<Longrightarrow> nesting_within k cs q"
  shows "\<not> nesting_within m cs q"
  using assms by (induction m) auto

lemma nesting_within_child:
  assumes "nesting_within (Suc k) cs q" "c \<in> set (all_commands (cs ! nat q))"
    "getType c = GROUP_COMMAND"
  shows "nesting_within k cs (getRenderQueueID c)"
  using assms by (auto simp: list_all_iff)

lemma no_deeper_child:
  assumes "c \<in> set (all_commands (cs ! nat q))" "getType c = GROUP_COMMAND"
    and "no_deeper cs (getRenderQueueID c) p"
  shows "no_deeper cs q p"
  unfolding no_deeper_def
proof (intro allI impI)
  fix k assume k: "nesting_within k cs q"
  show "nesting_within k cs p"
  proof (cases k)
    case 0
    with k show ?thesis by simp
  next
    case (Suc j)
    with k nesting_within_child [OF _ assms(1,2)]
    have "nesting_within j cs (getRenderQueueID c)" by simp
    with assms(3) have "nesting_within j cs p" by (simp add: no_deeper_def)
    with Suc show ?thesis using nesting_within_mono by simp
  qed
qed

lemma child_not_above:
  assumes "nesting_within m cs q"
    and "c \<in> set (all_commands (cs ! nat q))" "getType c = GROUP_COMMAND"
  shows "\<not> no_deeper cs (getRenderQueueID c) q"
proof
  assume d: "no_deeper cs (getRenderQueueID c) q"
  have "\<And>k. nesting_within (Suc k) cs q \<Longrightarrow> nesting_within k cs q"
    using nesting_within_child [OF _ assms(2,3)] d by (simp add: no_deeper_def)
  from nesting_within_descend [OF this] assms(1) show False by blast
qed

text \<open>
  The dispatch of one command and of a list of commands, for any \<open>visit\<close> that keeps
  the commands, changes only queues no deeper than its target and returns only when the
  target's nesting is within \<open>n\<close>.
\<close>

lemma process_one_frame:
  assumes v: "\<And>r q r'. visit r q = Some (Inr r') \<Longrightarrow>
                nesting_within n (map commands (renderGroups r)) q \<and>
                changes_only (no_deeper (map commands (renderGroups r)) q) r r'"
    and p: "processRenderCommand caps visit r (Some c) = Some (Inr r')"
  shows "(getType c = GROUP_COMMAND \<longrightarrow>
            nesting_within n (map commands (renderGroups r)) (getRenderQueueID c)) \<and>
         changes_only (\<lambda>p. getType c = GROUP_COMMAND \<and>
            no_deeper (map commands (renderGroups r)) (getRenderQueueID c) p) r r'"
proof (cases "getType c = GROUP_COMMAND")
  case True
  with p obtain r1 where f: "drawBatchedTriangles r = Inr r1"
    and g: "visit r1 (getRenderQueueID c) = Some (Inr r')"
    by (auto simp: processRenderCommand_def flush_def and_then_returns)
  have e: "renderGroups r1 = renderGroups r"
    using arg_cong [OF drawBatchedTriangles_frame [OF f, where g = "gl r" and k = "[]" and a = 0
          and b = 0 and x = 0 and y = 0 and f = "triBatchesToDraw r" and q = "[]"], of renderGroups]
    by simp
  from v [OF g] e True show ?thesis
    by (simp add: changes_only_def)
next
  case False
  have "renderGroups r' = renderGroups r"
  proof (cases "getType c = TRIANGLES_COMMAND")
    case t: True
    show ?thesis
    proof (cases "filledVertex r + getVertexCount c > VBO_SIZE caps
              \<or> filledIndex r + getIndexCount c > INDEX_VBO_SIZE caps")
      case True
      with p t obtain r1 where f: "drawBatchedTriangles r = Inr r1" and r': "r' = queue_it r1 c"
        by (auto simp: processRenderCommand_def and_then_returns split: if_splits)
      have "renderGroups r1 = renderGroups r"
        using arg_cong [OF drawBatchedTriangles_frame [OF f, where g = "gl r" and k = "[]" and a = 0
              and b = 0 and x = 0 and y = 0 and f = "triBatchesToDraw r" and q = "[]"], of renderGroups]
        by simp
      with r' show ?thesis by (simp add: queue_it_def)
    next
      case False
      with p t show ?thesis by (auto simp: processRenderCommand_def queue_it_def)
    qed
  next
    case nt: False
    show ?thesis
    proof (cases "getType c = UNKNOWN_COMMAND")
      case True
      with p show ?thesis by (auto simp: processRenderCommand_def)
    next
      case nu: False
      with p nt False obtain r1 where f: "drawBatchedTriangles r = Inr r1"
        and r': "r' = run_execute r1 c"
        by (cases "getType c") (auto simp: processRenderCommand_def flush_def and_then_returns)
      have "renderGroups r1 = renderGroups r"
        using arg_cong [OF drawBatchedTriangles_frame [OF f, where g = "gl r" and k = "[]" and a = 0
              and b = 0 and x = 0 and y = 0 and f = "triBatchesToDraw r" and q = "[]"], of renderGroups]
        by simp
      with r' show ?thesis by (simp add: run_execute_def)
    qed
  qed
  with False show ?thesis by (simp add: changes_only_def)
qed

lemma process_all_frame:
  assumes v: "\<And>r q r'. visit r q = Some (Inr r') \<Longrightarrow>
                nesting_within n (map commands (renderGroups r)) q \<and>
                changes_only (no_deeper (map commands (renderGroups r)) q) r r'"
    and p: "process_all (processRenderCommand caps visit) cs r = Some (Inr r')"
  shows "(\<forall>c\<in>set cs. getType c = GROUP_COMMAND \<longrightarrow>
            nesting_within n (map commands (renderGroups r)) (getRenderQueueID c)) \<and>
         changes_only (\<lambda>p. \<exists>c\<in>set cs. getType c = GROUP_COMMAND \<and>
            no_deeper (map commands (renderGroups r)) (getRenderQueueID c) p) r r'"
  using p
proof (induction cs arbitrary: r)
  case Nil
  then show ?case by (simp add: changes_only_def)
next
  case (Cons c cs)
  from Cons.prems obtain r1
    where 1: "processRenderCommand caps visit r (Some c) = Some (Inr r1)"
      and 2: "process_all (processRenderCommand caps visit) cs r1 = Some (Inr r')"
    by (auto simp: and_then_returns)
  note a = process_one_frame [OF v 1]
  have e: "map commands (renderGroups r1) = map commands (renderGroups r)"
    using a by (simp add: changes_only_def)
  note b = Cons.IH [OF 2, unfolded e]
  have "changes_only (\<lambda>p. \<exists>c\<in>set (c # cs). getType c = GROUP_COMMAND \<and>
            no_deeper (map commands (renderGroups r)) (getRenderQueueID c) p) r r'"
    by (rule changes_only_mono [OF changes_only_trans [OF conjunct2 [OF a] conjunct2 [OF b]]]) auto
  with a b show ?case by simp
qed

lemma visit_group_frame:
  assumes v: "\<And>r q r'. visit r q = Some (Inr r') \<Longrightarrow>
                nesting_within n (map commands (renderGroups r)) q \<and>
                changes_only (no_deeper (map commands (renderGroups r)) q) r r'"
    and p: "visit_group (processRenderCommand caps visit) g i r = Some (Inr r')"
    and i: "i < length (renderGroups r)"
  shows "(\<forall>c\<in>set ((map commands (renderGroups r) ! i) g). getType c = GROUP_COMMAND \<longrightarrow>
            nesting_within n (map commands (renderGroups r)) (getRenderQueueID c)) \<and>
         changes_only (\<lambda>p. \<exists>c\<in>set ((map commands (renderGroups r) ! i) g).
            getType c = GROUP_COMMAND \<and>
            no_deeper (map commands (renderGroups r)) (getRenderQueueID c) p) r r'"
proof -
  let ?sub = "commands (renderGroups r ! i) g"
  have s: "(map commands (renderGroups r) ! i) g = ?sub" using i by simp
  show ?thesis
  proof (cases "?sub = []")
    case True
    with p have "r' = r" by (simp add: visit_group_def)
    with True s show ?thesis by (simp add: changes_only_def)
  next
    case False
    let ?r = "r\<lparr>gl := group_state g (isDepthTestFor2D r) (gl r)\<rparr>"
    from p False obtain r1
      where 1: "process_all (processRenderCommand caps visit) ?sub ?r = Some (Inr r1)"
        and 2: "drawBatchedTriangles r1 = Inr r'"
      by (auto simp: visit_group_def Let_def and_then_returns flush_def)
    note a = process_all_frame [OF v 1]
    have e: "renderGroups r' = renderGroups r1"
      using arg_cong [OF drawBatchedTriangles_frame [OF 2, where g = "gl r" and k = "[]" and a = 0
            and b = 0 and x = 0 and y = 0 and f = "triBatchesToDraw r" and q = "[]"], of renderGroups]
      by simp
    from a e s show ?thesis by (simp add: changes_only_def)
  qed
qed

lemma map_commands_save:
  assumes "i < length qs"
  shows "map commands (qs[i := saveRenderState f (qs ! i)]) = map commands qs"
proof -
  have "commands (saveRenderState f (qs ! i)) = map commands qs ! i"
    using assms by (simp add: saveRenderState_def)
  then show ?thesis by (simp add: map_update)
qed

lemma restore_saved:
  "DEPTH_TEST (restoreRenderState (saveRenderState f q) f') = DEPTH_TEST f"
  "CULL_FACE (restoreRenderState (saveRenderState f q) f') = CULL_FACE f"
  "DEPTH_WRITEMASK (restoreRenderState (saveRenderState f q) f') = DEPTH_WRITEMASK f"
  by (simp_all add: restoreRenderState_def saveRenderState_def)

lemma visit_body_frame:
  assumes v: "\<And>r q r'. visit r q = Some (Inr r') \<Longrightarrow>
                nesting_within n (map commands (renderGroups r)) q \<and>
                changes_only (no_deeper (map commands (renderGroups r)) q) r r'"
    and p: "visit_body (processRenderCommand caps visit) r q = Some (Inr r')"
  shows "nesting_within (Suc n) (map commands (renderGroups r)) q \<and>
         changes_only (no_deeper (map commands (renderGroups r)) q) r r' \<and>
         DEPTH_TEST (gl r') = DEPTH_TEST (gl r) \<and>
         CULL_FACE (gl r') = CULL_FACE (gl r) \<and>
         DEPTH_WRITEMASK (gl r') = DEPTH_WRITEMASK (gl r)"
proof -
  let ?C = "map commands (renderGroups r)"
  let ?i = "nat q"
  let ?p = "processRenderCommand caps visit"
  let ?X = "\<lambda>g p. \<exists>c\<in>set ((?C ! ?i) g). getType c = GROUP_COMMAND \<and>
                    no_deeper ?C (getRenderQueueID c) p"
  let ?N = "\<lambda>g. \<forall>c\<in>set ((?C ! ?i) g). getType c = GROUP_COMMAND \<longrightarrow>
                    nesting_within n ?C (getRenderQueueID c)"
  from p have q: "0 \<le> q" "?i < length (renderGroups r)"
    by (auto simp: visit_body_def split: if_splits)
  let ?r0 = "r\<lparr>renderGroups := (renderGroups r)[?i := saveRenderState (gl r) (renderGroups r ! ?i)]\<rparr>"
  have c0: "map commands (renderGroups ?r0) = ?C"
    using map_commands_save [OF q(2)] by simp
  have l0: "?i < length (renderGroups ?r0)" using q by simp
  from p q obtain r1 r2 r3 r4 r5
    where g1: "visit_group ?p GLOBALZ_NEG ?i ?r0 = Some (Inr r1)"
      and g2: "visit_group ?p OPAQUE_3D ?i r1 = Some (Inr r2)"
      and g3: "visit_group ?p TRANSPARENT_3D ?i r2 = Some (Inr r3)"
      and g4: "visit_group ?p GLOBALZ_ZERO ?i r3 = Some (Inr r4)"
      and g5: "visit_group ?p GLOBALZ_POS ?i r4 = Some (Inr r5)"
      and r': "r' = r5\<lparr>gl := restoreRenderState (renderGroups r5 ! ?i) (gl r5)\<rparr>"
    by (auto simp: visit_body_def Let_def and_then_returns)
  note f1 = visit_group_frame [OF v g1 l0, unfolded c0]
  have c1: "map commands (renderGroups r1) = ?C" and l1: "?i < length (renderGroups r1)"
    using f1 c0 l0 changes_only_length [OF conjunct2 [OF f1]] by (simp_all add: changes_only_def)
  note f2 = visit_group_frame [OF v g2 l1, unfolded c1]
  have c2: "map commands (renderGroups r2) = ?C" and l2: "?i < length (renderGroups r2)"
    using f2 c1 l1 changes_only_length [OF conjunct2 [OF f2]] by (simp_all add: changes_only_def)
  note f3 = visit_group_frame [OF v g3 l2, unfolded c2]
  have c3: "map commands (renderGroups r3) = ?C" and l3: "?i < length (renderGroups r3)"
    using f3 c2 l2 changes_only_length [OF conjunct2 [OF f3]] by (simp_all add: changes_only_def)
  note f4 = visit_group_frame [OF v g4 l3, unfolded c3]
  have c4: "map commands (renderGroups r4) = ?C" and l4: "?i < length (renderGroups r4)"
    using f4 c3 l3 changes_only_length [OF conjunct2 [OF f4]] by (simp_all add: changes_only_def)
  note f5 = visit_group_frame [OF v g5 l4, unfolded c4]
  let ?Y = "\<lambda>p. \<exists>c\<in>set (all_commands (?C ! ?i)). getType c = GROUP_COMMAND \<and>
                    no_deeper ?C (getRenderQueueID c) p"
  have sweep: "changes_only ?Y ?r0 r5"
    by (rule changes_only_mono
          [OF changes_only_trans [OF changes_only_trans [OF changes_only_trans
             [OF changes_only_trans [OF conjunct2 [OF f1] conjunct2 [OF f2]] conjunct2 [OF f3]]
             conjunct2 [OF f4]] conjunct2 [OF f5]]])
       (auto simp: all_commands_def QUEUE_GROUPS_def)
  have nest: "nesting_within (Suc n) ?C q"
    using q f1 f2 f3 f4 f5 by (auto simp: all_commands_def QUEUE_GROUPS_def list_all_iff)
  have "\<not> ?Y (int ?i)"
    using child_not_above [OF nest] q(1) by auto
  with sweep l0 have same: "renderGroups r5 ! ?i = renderGroups ?r0 ! ?i"
    unfolding changes_only_def by blast
  have saved: "renderGroups r5 ! ?i = saveRenderState (gl r) (renderGroups r ! ?i)"
    using same q(2) by simp
  have flags: "DEPTH_TEST (gl r') = DEPTH_TEST (gl r)" "CULL_FACE (gl r') = CULL_FACE (gl r)"
    "DEPTH_WRITEMASK (gl r') = DEPTH_WRITEMASK (gl r)"
    using r' saved by (simp_all add: restore_saved)
  have first: "changes_only (\<lambda>p. p = q) r ?r0"
    using q c0 unfolding changes_only_def
    by (auto simp: nth_list_update split: if_splits)
  have last: "changes_only (\<lambda>p. False) r5 r'"
    using r' by (simp add: changes_only_def)
  have co: "changes_only (no_deeper ?C q) r r'"
  proof (rule changes_only_mono
           [OF changes_only_trans [OF changes_only_trans [OF first sweep] last]])
    fix p assume "(p = q \<or> ?Y p) \<or> False"
    then show "no_deeper ?C q p"
    proof (elim disjE)
      assume "p = q" then show ?thesis by (simp add: no_deeper_def)
    next
      assume "?Y p"
      then obtain c where "c \<in> set (all_commands (?C ! ?i))" "getType c = GROUP_COMMAND"
        "no_deeper ?C (getRenderQueueID c) p" by blast
      then show ?thesis by (rule no_deeper_child)
    qed simp
  qed
  from nest co flags show ?thesis by blast
qed

lemma visitRenderQueue_frame:
  assumes "visitRenderQueue n caps r q = Some (Inr r')"
  shows "nesting_within n (map commands (renderGroups r)) q \<and>
         changes_only (no_deeper (map commands (renderGroups r)) q) r r' \<and>
         DEPTH_TEST (gl r') = DEPTH_TEST (gl r) \<and>
         CULL_FACE (gl r') = CULL_FACE (gl r) \<and>
         DEPTH_WRITEMASK (gl r') = DEPTH_WRITEMASK (gl r)"
  using assms
proof (induction n arbitrary: r q r')
  case 0
  then show ?case by simp
next
  case (Suc n)
  have v: "\<And>r q r'. visitRenderQueue n caps r q = Some (Inr r') \<Longrightarrow>
                nesting_within n (map commands (renderGroups r)) q \<and>
                changes_only (no_deeper (map commands (renderGroups r)) q) r r'"
    using Suc.IH by blast
  from Suc.prems have "visit_body (processRenderCommand caps (visitRenderQueue n caps)) r q =
                         Some (Inr r')"
    by simp
  from visit_body_frame [OF v this] show ?case .
qed

lemma queue_size_zero:
  assumes "queue_size qu = 0"
  shows "commands qu g = []"
proof -
  have "int (length (commands qu GLOBALZ_NEG)) + int (length (commands qu OPAQUE_3D)) +
        int (length (commands qu TRANSPARENT_3D)) + int (length (commands qu GLOBALZ_ZERO)) +
        int (length (commands qu GLOBALZ_POS)) = 0"
    using assms by (simp add: queue_size_def QUEUE_GROUPS_def)
  then have "length (commands qu GLOBALZ_NEG) = 0 \<and> length (commands qu OPAQUE_3D) = 0 \<and>
        length (commands qu TRANSPARENT_3D) = 0 \<and> length (commands qu GLOBALZ_ZERO) = 0 \<and>
        length (commands qu GLOBALZ_POS) = 0"
    by linarith
  then show ?thesis by (cases g) simp_all
qed

lemma sort_queue_empty:
  assumes "std_sort_contract srt" "queue_size qu = 0"
  shows "commands (sort_queue srt qu) g = []"
proof -
  have "mset (srt compareRenderCommand []) = mset ([] :: render_command list)"
    using assms(1) unfolding std_sort_contract_def by (simp add: not_nan_def)
  then have "srt compareRenderCommand [] = []" by simp
  then show ?thesis
    using queue_size_zero [OF assms(2)] by (cases g) (simp_all add: sort_queue_commands)
qed

lemma visit_empty_queue:
  assumes "renderGroups r \<noteq> []" "\<And>g. commands (renderGroups r ! 0) g = []"
  shows "\<exists>r'. visitRenderQueue (Suc n) caps r 0 = Some (Inr r') \<and> gl r' = gl r \<and>
           glCalls r' = glCalls r"
  using assms
  by (simp add: visit_body_def visit_group_def Let_def restoreRenderState_def saveRenderState_def)

lemma render_empty:
  assumes s: "std_sort_contract srt" and ne: "renderGroups r \<noteq> []"
    and e: "list_all (\<lambda>qu. queue_size qu = 0) (renderGroups r)"
  shows "\<exists>r'. render (Suc n) srt caps r = Some (Inr r') \<and> gl r' = gl r \<and> glCalls r' = glCalls r"
proof (cases "glViewAssigned r")
  case False
  then show ?thesis by (simp add: render_def Let_def clean_def)
next
  case True
  let ?r2 = "r\<lparr>isRendering := True, renderGroups := map (sort_queue srt) (renderGroups r)\<rparr>"
  have "queue_size (renderGroups r ! 0) = 0"
    using e ne by (simp add: list_all_length)
  then have "\<And>g. commands (renderGroups ?r2 ! 0) g = []"
    using sort_queue_empty [OF s] ne by simp
  from visit_empty_queue [of ?r2, OF _ this, of n caps] ne
  obtain r3 where "visitRenderQueue (Suc n) caps ?r2 0 = Some (Inr r3)"
    "gl r3 = gl r" "glCalls r3 = glCalls r"
    by auto
  with True show ?thesis by (simp add: render_def Let_def clean_def)
qed

subsection \<open>Queue identifiers\<close>

lemma render_length:
  assumes "render depth srt caps r = Some (Inr r')"
  shows "length (renderGroups r') = length (renderGroups r)"
proof (cases "glViewAssigned r")
  case False
  with assms show ?thesis by (auto simp: render_def Let_def clean_def)
next
  case True
  let ?r2 = "r\<lparr>isRendering := True, renderGroups := map (sort_queue srt) (renderGroups r)\<rparr>"
  from assms True obtain r3 where v: "visitRenderQueue depth caps ?r2 0 = Some (Inr r3)"
    and r': "r' = (clean r3)\<lparr>isRendering := False\<rparr>"
    by (auto simp: render_def Let_def and_then_returns)
  from visitRenderQueue_frame [OF v] have "changes_only
      (no_deeper (map commands (renderGroups ?r2)) 0) ?r2 r3" by blast
  from changes_only_length [OF this] r' show ?thesis by (simp add: clean_def)
qed

lemma api_step_length:
  assumes "api_step srt caps r call = Some r'"
  shows "length (renderGroups r) \<le> length (renderGroups r')"
proof (cases call)
  case (AddCommand c)
  with assms show ?thesis
    by (auto simp: addCommand_def addCommand_to_def split: sum.splits list.splits if_splits)
next
  case (AddCommandTo c q)
  with assms show ?thesis
    by (auto simp: addCommand_to_def split: sum.splits if_splits)
next
  case (PushGroup q)
  with assms show ?thesis by (auto simp: pushGroup_def split: sum.splits if_splits)
next
  case PopGroup
  with assms show ?thesis by (auto simp: popGroup_def split: sum.splits if_splits list.splits)
next
  case (CreateRenderQueue junk)
  with assms show ?thesis by (auto simp: createRenderQueue_def Let_def)
next
  case (Render depth)
  with assms have "render depth srt caps r = Some (Inr r')"
    by (auto split: option.splits sum.splits)
  from render_length [OF this] show ?thesis by simp
qed

lemma api_run_length:
  assumes "api_run srt caps r calls = Some r'"
  shows "length (renderGroups r) \<le> length (renderGroups r')"
  using assms
proof (induction calls arbitrary: r)
  case Nil
  then show ?case by simp
next
  case (Cons call calls)
  then obtain r1 where 1: "api_step srt caps r call = Some r1"
    and 2: "api_run srt caps r1 calls = Some r'"
    by (auto split: option.splits)
  from api_step_length [OF 1] Cons.IH [OF 2] show ?case by simp
qed

lemma queue_size_push_back: "queue_size (push_back qu c) = queue_size qu + 1"
  by (simp add: queue_size_def QUEUE_GROUPS_def push_back_def Let_def)

lemma queue_at_push_back: "\<exists>i. queue_at (push_back qu c) i = Inr c"
proof -
  from push_back_appends [of qu c] obtain g
    where g: "commands (push_back qu c) = (commands qu)(g := commands qu g @ [c])" by blast
  have g': "g = GLOBALZ_NEG \<or> g = GLOBALZ_ZERO \<or> g = GLOBALZ_POS"
  proof (rule ccontr)
    assume "\<not> ?thesis"
    then have "commands (push_back qu c) g = commands qu g"
      by (cases g) (auto simp: push_back_def Let_def)
    with g show False by simp
  qed
  have l: "length (commands qu g) < length (commands (push_back qu c) g)"
    and n: "commands (push_back qu c) g ! length (commands qu g) = c"
    using g by simp_all
  from g' show ?thesis
  proof (elim disjE)
    assume "g = GLOBALZ_NEG"
    with queue_at_positions(1) [of "length (commands qu g)" "push_back qu c"] l n
    show ?thesis by auto
  next
    assume "g = GLOBALZ_ZERO"
    with queue_at_positions(2) [of "length (commands qu g)" "push_back qu c"] l n
    show ?thesis by auto
  next
    assume "g = GLOBALZ_POS"
    with queue_at_positions(3) [of "length (commands qu g)" "push_back qu c"] l n
    show ?thesis by auto
  qed
qed

text \<open>
  C9. \<open>createRenderQueue\<close> returns the number of queues there were and appends one
  queue, of size 0, behind them. Whatever calls of the public interface follow, a later
  \<open>createRenderQueue\<close> returns a larger identifier. \<open>addCommand(cmd, id)\<close> makes the
  queue \<open>id\<close> one command larger, with the command at some flattened index of it, and
  leaves the flattened contents of every other queue as they were.
\<close>

theorem queue_ids_and_routing:
  "fst (createRenderQueue junk r) = int (length (renderGroups r))
   \<and> (\<exists>qu. renderGroups (snd (createRenderQueue junk r)) = renderGroups r @ [qu] \<and>
           queue_size qu = 0)
   \<and> (api_run srt caps (snd (createRenderQueue junk r)) calls = Some r2 \<longrightarrow>
        fst (createRenderQueue junk r) < fst (createRenderQueue junk2 r2))
   \<and> (addCommand_to r c q = Inr r3 \<longrightarrow>
        queue_size (renderGroups r3 ! nat q) = queue_size (renderGroups r ! nat q) + 1 \<and>
        (\<exists>i. queue_at (renderGroups r3 ! nat q) i = Inr c) \<and>
        (\<forall>j i. j \<noteq> nat q \<longrightarrow> queue_at (renderGroups r3 ! j) i = queue_at (renderGroups r ! j) i))"
proof (intro conjI impI)
  show "fst (createRenderQueue junk r) = int (length (renderGroups r))"
    by (simp add: createRenderQueue_def Let_def)
  show "\<exists>qu. renderGroups (snd (createRenderQueue junk r)) = renderGroups r @ [qu] \<and>
           queue_size qu = 0"
    by (simp add: createRenderQueue_def Let_def new_queue_def queue_size_def QUEUE_GROUPS_def)
next
  assume "api_run srt caps (snd (createRenderQueue junk r)) calls = Some r2"
  from api_run_length [OF this]
  show "fst (createRenderQueue junk r) < fst (createRenderQueue junk2 r2)"
    by (simp add: createRenderQueue_def Let_def)
next
  assume a: "addCommand_to r c q = Inr r3"
  then have r3: "renderGroups r3 = (renderGroups r)[nat q := push_back (renderGroups r ! nat q) c]"
    and q: "nat q < length (renderGroups r)"
    by (auto simp: addCommand_to_def split: if_splits)
  show "queue_size (renderGroups r3 ! nat q) = queue_size (renderGroups r ! nat q) + 1"
    using r3 q by (simp add: queue_size_push_back)
  show "\<exists>i. queue_at (renderGroups r3 ! nat q) i = Inr c"
    using r3 q queue_at_push_back by simp
  show "\<forall>j i. j \<noteq> nat q \<longrightarrow> queue_at (renderGroups r3 ! j) i = queue_at (renderGroups r ! j) i"
    using r3 by simp
qed

theorem queue_ids_and_routing_witness:
  "(\<exists>r2. api_run (insertion_sort False) example_limits
            (snd (createRenderQueue (False, False, False) example_renderer))
            [AddCommandTo (ordered_command 1 1) 1, PushGroup 1, Render (Suc 0)] = Some r2 \<and>
          fst (createRenderQueue (False, False, False) example_renderer) = 1 \<and>
          fst (createRenderQueue (False, False, False) example_renderer) <
            fst (createRenderQueue (True, True, True) r2))
   \<and> (\<exists>r3. addCommand_to (snd (createRenderQueue (False, False, False) example_renderer))
               (ordered_command 1 1) 1 = Inr r3 \<and>
            queue_at (renderGroups r3 ! 1) 0 = Inr (ordered_command 1 1) \<and>
            (\<forall>i. queue_at (renderGroups r3 ! 0) i = queue_at (renderGroups example_renderer ! 0) i))"
proof -
  let ?r1 = "snd (createRenderQueue (False, False, False) example_renderer)"
  let ?c = "ordered_command 1 1"
  have g: "renderGroups ?r1 = [new_queue False False False, new_queue False False False]"
    by (simp add: createRenderQueue_def Let_def example_renderer_def)
  have "\<exists>r2. api_run (insertion_sort False) example_limits ?r1
            [AddCommandTo ?c 1, PushGroup 1, Render (Suc 0)] = Some r2"
    by (simp add: createRenderQueue_def Let_def example_renderer_def addCommand_to_def
        pushGroup_def render_def visit_body_def visit_group_def clean_def sort_queue_def
        insertion_sort_def new_queue_def saveRenderState_def restoreRenderState_def push_back_def
        ordered_command_def example_command_def compareRenderCommand_def)
  then obtain r2 where run: "api_run (insertion_sort False) example_limits ?r1
            [AddCommandTo ?c 1, PushGroup 1, Render (Suc 0)] = Some r2" by blast
  have one: "fst (createRenderQueue (False, False, False) example_renderer) = 1"
    by (simp add: createRenderQueue_def Let_def example_renderer_def)
  from queue_ids_and_routing [of "(False, False, False)" example_renderer "insertion_sort False"
      example_limits _ r2 "(True, True, True)"] run
  have lt: "fst (createRenderQueue (False, False, False) example_renderer) <
              fst (createRenderQueue (True, True, True) r2)"
    by blast
  let ?r3 = "?r1\<lparr>renderGroups := [new_queue False False False,
                                    push_back (new_queue False False False) ?c]\<rparr>"
  have a: "addCommand_to ?r1 ?c 1 = Inr ?r3"
    by (simp add: addCommand_to_def g createRenderQueue_def Let_def example_renderer_def
        ordered_command_def example_command_def)
  have at: "queue_at (renderGroups ?r3 ! 1) 0 = Inr ?c"
    by (simp add: queue_at_def QUEUE_GROUPS_def push_back_def new_queue_def Let_def
        ordered_command_def example_command_def)
  have other: "\<forall>i. queue_at (renderGroups ?r3 ! 0) i = queue_at (renderGroups example_renderer ! 0) i"
    by (simp add: example_renderer_def)
  from run one lt a at other show ?thesis by blast
qed

subsection \<open>The scan against the rule of the specification\<close>

text \<open>
  As long as no command after the first has the material identifier \<open>-1\<close>, the entries
  that the scan writes are the batches of the specification's rule.
\<close>

lemma scan_refines:
  assumes "\<not> firstCommand s"
    and "cmd (triBatchesToDraw (pass_renderer s) (batchesTotal s)) = Some p"
    and "prevMaterialID s = (if isSkipBatching p then - 1 else getMaterialID p)"
    and "\<forall>c\<in>set cs. getMaterialID c \<noteq> - 1"
  shows "\<exists>s'. batch_loop cs s = Inr s' \<and>
           map (triBatchesToDraw (pass_renderer s')) [0..<Suc (batchesTotal s')] =
             spec_scan (map (triBatchesToDraw (pass_renderer s)) [0..<batchesTotal s])
               (triBatchesToDraw (pass_renderer s) (batchesTotal s)) p cs"
  using assms
proof (induction cs arbitrary: s p)
  case Nil
  then show ?case by simp
next
  case (Cons c cs)
  let ?tb = "triBatchesToDraw (pass_renderer s)"
  let ?n = "batchesTotal s"
  have c: "getMaterialID c \<noteq> - 1" and cs: "\<forall>c\<in>set cs. getMaterialID c \<noteq> - 1"
    using Cons.prems(4) by simp_all
  show ?case
  proof (cases "joins p c")
    case True
    then have j: "\<not> isSkipBatching c" "\<not> isSkipBatching p" "getMaterialID c = getMaterialID p"
      by (simp_all add: joins_def)
    from batch_step_extend [of c s] j Cons.prems(1-3)
    obtain s1 where 1: "batch_step s c = Inr s1" and n1: "batchesTotal s1 = ?n"
      and p1: "prevMaterialID s1 = getMaterialID c"
      and t1: "triBatchesToDraw (pass_renderer s1) ?n =
                 \<lparr>offset = offset (?tb ?n), indicesToDraw = indicesToDraw (?tb ?n) + getIndexCount c,
                  cmd = Some c\<rparr>"
      and o1: "\<forall>i. i \<noteq> ?n \<longrightarrow> triBatchesToDraw (pass_renderer s1) i = ?tb i"
      by auto
    have f1: "\<not> firstCommand s1" using batch_step_fill(3) [OF 1] .
    have b1: "triBatchesToDraw (pass_renderer s1) ?n =
                (?tb ?n)\<lparr>indicesToDraw := indicesToDraw (?tb ?n) + getIndexCount c, cmd := Some c\<rparr>"
      using t1 by simp
    have m1: "map (triBatchesToDraw (pass_renderer s1)) [0..<?n] = map ?tb [0..<?n]"
      using o1 by simp
    from Cons.IH [of s1 c] f1 t1 p1 j(1) n1 cs
    obtain s' where 2: "batch_loop cs s1 = Inr s'"
      and r: "map (triBatchesToDraw (pass_renderer s')) [0..<Suc (batchesTotal s')] =
                spec_scan (map (triBatchesToDraw (pass_renderer s1)) [0..<?n])
                  (triBatchesToDraw (pass_renderer s1) ?n) c cs"
      by auto
    from 1 2 r [unfolded m1 b1] True show ?thesis by simp
  next
    case False
    have "\<not> (\<not> isSkipBatching c \<and> (prevMaterialID s = getMaterialID c \<or> firstCommand s))"
      using False c Cons.prems(1,3) by (auto simp: joins_def split: if_splits)
    from batch_step_new [OF this] Cons.prems(1)
    obtain s1 where 1: "batch_step s c = Inr s1" and n1: "batchesTotal s1 = ?n + 1"
      and p1: "prevMaterialID s1 = (if isSkipBatching c then - 1 else getMaterialID c)"
      and t1: "triBatchesToDraw (pass_renderer s1) (?n + 1) =
                 \<lparr>offset = offset (?tb ?n) + indicesToDraw (?tb ?n),
                  indicesToDraw = getIndexCount c, cmd = Some c\<rparr>"
      and o1: "\<forall>i. i \<noteq> ?n + 1 \<longrightarrow> triBatchesToDraw (pass_renderer s1) i = ?tb i"
      by auto
    have f1: "\<not> firstCommand s1" using batch_step_fill(3) [OF 1] .
    have m1: "map (triBatchesToDraw (pass_renderer s1)) [0..<?n + 1] = map ?tb [0..<?n] @ [?tb ?n]"
      using o1 by simp
    from Cons.IH [of s1 c] f1 t1 p1 n1 cs
    obtain s' where 2: "batch_loop cs s1 = Inr s'"
      and r: "map (triBatchesToDraw (pass_renderer s')) [0..<Suc (batchesTotal s')] =
                spec_scan (map (triBatchesToDraw (pass_renderer s1)) [0..<?n + 1])
                  (triBatchesToDraw (pass_renderer s1) (?n + 1)) c cs"
      by auto
    from 1 2 r [unfolded m1 t1] False show ?thesis by simp
  qed
qed

lemma flush_follows_rule:
  assumes q: "queuedTriangleCommands r = c # cs"
    and m: "\<forall>x\<in>set cs. getMaterialID x \<noteq> - 1"
  shows "\<exists>r'. drawBatchedTriangles r = Inr r' \<and>
           map (triBatchesToDraw r') [0..<length (spec_batches (c # cs))] = spec_batches (c # cs) \<and>
           glCalls r' = glCalls r @
             BufferData (sum_list (map getVertexCount (c # cs))) (sum_list (map getIndexCount (c # cs))) #
             map (\<lambda>b. DrawElements (the (cmd b)) (indicesToDraw b) (offset b * 2))
               (spec_batches (c # cs))"
proof -
  let ?r0 = "r\<lparr>filledVertex := 0, filledIndex := 0,
               triBatchesToDraw :=
                 (triBatchesToDraw r)(0 := \<lparr>offset = 0, indicesToDraw = 0, cmd = None\<rparr>)\<rparr>"
  let ?s0 = "\<lparr>pass_renderer = ?r0, batchesTotal = 0, prevMaterialID = - 1, firstCommand = True\<rparr>"
  have "\<exists>s1. batch_step ?s0 c = Inr s1 \<and> batchesTotal s1 = 0 \<and>
          prevMaterialID s1 = (if isSkipBatching c then - 1 else getMaterialID c) \<and>
          triBatchesToDraw (pass_renderer s1) 0 =
            \<lparr>offset = 0, indicesToDraw = getIndexCount c, cmd = Some c\<rparr>"
  proof (cases "isSkipBatching c")
    case True
    with batch_step_new [of c ?s0] show ?thesis by auto
  next
    case False
    with batch_step_extend [of c ?s0] show ?thesis by auto
  qed
  then obtain s1 where 1: "batch_step ?s0 c = Inr s1" and n1: "batchesTotal s1 = 0"
    and p1: "prevMaterialID s1 = (if isSkipBatching c then - 1 else getMaterialID c)"
    and t1: "triBatchesToDraw (pass_renderer s1) 0 =
               \<lparr>offset = 0, indicesToDraw = getIndexCount c, cmd = Some c\<rparr>"
    by blast
  have f1: "\<not> firstCommand s1" using batch_step_fill(3) [OF 1] .
  from scan_refines [of s1 c cs] f1 t1 p1 n1 m
  obtain s where 2: "batch_loop cs s1 = Inr s"
    and r: "map (triBatchesToDraw (pass_renderer s)) [0..<Suc (batchesTotal s)] = spec_batches (c # cs)"
    by auto
  have loop: "batch_loop (queuedTriangleCommands r) ?s0 = Inr s" using q 1 2 by simp
  have ne: "queuedTriangleCommands r \<noteq> []" using q by simp
  have len: "length (spec_batches (c # cs)) = Suc (batchesTotal s)"
    using arg_cong [OF r, of length] by simp
  have k: "\<forall>b\<in>set (spec_batches (c # cs)). cmd b \<noteq> None"
    using batch_loop_cmds [OF loop _ ne] r [symmetric] by auto
  let ?r2 = "(pass_renderer s)\<lparr>glCalls := glCalls (pass_renderer s) @
               [BufferData (filledVertex (pass_renderer s)) (filledIndex (pass_renderer s))],
             elementBuffer :=
               (\<lambda>k. if 0 \<le> k \<and> k < filledIndex (pass_renderer s)
                    then indices (pass_renderer s) k else None)\<rparr>"
  have r2: "map (triBatchesToDraw ?r2) [0..<batchesTotal s + 1] = spec_batches (c # cs)"
    using r by simp
  from draw_loop_returns [OF k, of ?r2] obtain r3
    where d: "draw_loop (spec_batches (c # cs)) ?r2 = Inr r3" by blast
  let ?r' = "r3\<lparr>queuedTriangleCommands := [], filledVertex := 0, filledIndex := 0\<rparr>"
  have res: "drawBatchedTriangles r = Inr ?r'"
    using ne loop d r2 by (simp add: drawBatchedTriangles_def Let_def)
  have fill: "filledVertex (pass_renderer s) = sum_list (map getVertexCount (c # cs))"
             "filledIndex (pass_renderer s) = sum_list (map getIndexCount (c # cs))"
    using batch_loop_fill [OF loop] q by simp_all
  have calls: "glCalls (pass_renderer s) = glCalls r"
    using arg_cong [OF batch_loop_frame [OF loop, where a = 0 and b = 0 and f = "triBatchesToDraw r"],
        of glCalls] by simp
  have tb3: "triBatchesToDraw r3 = triBatchesToDraw (pass_renderer s)"
    using arg_cong [OF draw_loop_frame [OF d, where g = "gl r" and k = "[]" and a = 0 and b = 0],
        of triBatchesToDraw] by simp
  have "glCalls ?r' = glCalls r @
             BufferData (sum_list (map getVertexCount (c # cs))) (sum_list (map getIndexCount (c # cs))) #
             map (\<lambda>b. DrawElements (the (cmd b)) (indicesToDraw b) (offset b * 2))
               (spec_batches (c # cs))"
    using draw_loop_calls [OF d] fill calls by simp
  moreover have "map (triBatchesToDraw ?r') [0..<length (spec_batches (c # cs))] = spec_batches (c # cs)"
    using r len tb3 by simp
  ultimately show ?thesis using res by blast
qed

text \<open>Properties of the specification's rule itself.\<close>

lemma spec_scan_extends: "\<exists>bs. spec_scan finished b p cs = finished @ bs \<and> bs \<noteq> []"
proof (induction cs arbitrary: finished b p)
  case Nil
  then show ?case by simp
next
  case (Cons c cs)
  show ?case
  proof (cases "joins p c")
    case True
    with Cons [of finished "b\<lparr>indicesToDraw := indicesToDraw b + getIndexCount c, cmd := Some c\<rparr>" c]
    show ?thesis by simp
  next
    case False
    from Cons [of "finished @ [b]"
        "\<lparr>offset = offset b + indicesToDraw b, indicesToDraw = getIndexCount c, cmd = Some c\<rparr>" c]
    obtain bs where "spec_scan (finished @ [b])
        \<lparr>offset = offset b + indicesToDraw b, indicesToDraw = getIndexCount c, cmd = Some c\<rparr> c cs =
        (finished @ [b]) @ bs" by blast
    with False show ?thesis by simp
  qed
qed

lemma spec_scan_append:
  "\<exists>finished' b'.
     (\<forall>ys. spec_scan finished b p (xs @ ys) = spec_scan finished' b' (last (p # xs)) ys) \<and>
     offset b' + indicesToDraw b' = offset b + indicesToDraw b + sum_list (map getIndexCount xs)"
proof (induction xs arbitrary: finished b p)
  case Nil
  then show ?case by auto
next
  case (Cons c xs)
  show ?case
  proof (cases "joins p c")
    case True
    let ?b = "b\<lparr>indicesToDraw := indicesToDraw b + getIndexCount c, cmd := Some c\<rparr>"
    from Cons [of finished ?b c] obtain f' b'
      where "\<forall>ys. spec_scan finished ?b c (xs @ ys) = spec_scan f' b' (last (c # xs)) ys"
        and "offset b' + indicesToDraw b' =
               offset ?b + indicesToDraw ?b + sum_list (map getIndexCount xs)"
      by blast
    with True show ?thesis by (intro exI [of _ f'] exI [of _ b']) simp
  next
    case False
    let ?b = "\<lparr>offset = offset b + indicesToDraw b, indicesToDraw = getIndexCount c, cmd = Some c\<rparr>"
    from Cons [of "finished @ [b]" ?b c] obtain f' b'
      where "\<forall>ys. spec_scan (finished @ [b]) ?b c (xs @ ys) = spec_scan f' b' (last (c # xs)) ys"
        and "offset b' + indicesToDraw b' =
               offset ?b + indicesToDraw ?b + sum_list (map getIndexCount xs)"
      by blast
    with False show ?thesis by (intro exI [of _ f'] exI [of _ b']) simp
  qed
qed

lemma spec_scan_run:
  assumes "\<not> isSkipBatching p"
    and "\<forall>x\<in>set run. \<not> isSkipBatching x \<and> getMaterialID x = getMaterialID p"
  shows "spec_scan finished b p (run @ ys) =
         spec_scan finished
           (b\<lparr>indicesToDraw := indicesToDraw b + sum_list (map getIndexCount run),
              cmd := (if run = [] then cmd b else Some (last run))\<rparr>)
           (last (p # run)) ys"
  using assms
proof (induction run arbitrary: b p)
  case Nil
  then show ?case by simp
next
  case (Cons c run)
  have j: "joins p c" using Cons.prems by (simp add: joins_def)
  have "\<not> isSkipBatching c"
    "\<forall>x\<in>set run. \<not> isSkipBatching x \<and> getMaterialID x = getMaterialID c"
    using Cons.prems by simp_all
  from Cons.IH [OF this, of "b\<lparr>indicesToDraw := indicesToDraw b + getIndexCount c, cmd := Some c\<rparr>"] j
  show ?case by (simp add: add.assoc)
qed

text \<open>
  In a longer staged sequence, a run of batchable commands of one material whose
  neighbours on both sides do not join it is exactly one batch of the rule, placed at
  the sum of the index counts before it and spanning the sum of its own.
\<close>

lemma spec_batches_run_in_context:
  assumes run: "\<not> isSkipBatching c"
      "\<forall>x\<in>set run. \<not> isSkipBatching x \<and> getMaterialID x = getMaterialID c"
    and before: "pre = [] \<or> \<not> joins (last pre) c"
    and after: "post = [] \<or> \<not> joins (last (c # run)) (hd post)"
  shows "\<exists>rest. spec_batches (pre @ (c # run) @ post) =
           spec_batches pre @
           \<lparr>offset = sum_list (map getIndexCount pre),
            indicesToDraw = sum_list (map getIndexCount (c # run)),
            cmd = Some (last (c # run))\<rparr> # rest"
proof -
  let ?d = "\<lparr>offset = sum_list (map getIndexCount pre),
            indicesToDraw = sum_list (map getIndexCount (c # run)),
            cmd = Some (last (c # run))\<rparr>"
  let ?e = "\<lparr>offset = sum_list (map getIndexCount pre), indicesToDraw = getIndexCount c,
             cmd = Some c\<rparr>"
  have d: "?e\<lparr>indicesToDraw := indicesToDraw ?e + sum_list (map getIndexCount run),
               cmd := (if run = [] then cmd ?e else Some (last run))\<rparr> = ?d"
    by simp
  have tail: "\<exists>rest. spec_scan (spec_batches pre) ?d (last (c # run)) post =
                spec_batches pre @ ?d # rest"
  proof (cases post)
    case Nil
    then show ?thesis by simp
  next
    case (Cons x post')
    with after have nj: "\<not> joins (last (c # run)) x" by simp
    let ?n = "\<lparr>offset = offset ?d + indicesToDraw ?d, indicesToDraw = getIndexCount x,
              cmd = Some x\<rparr>"
    from spec_scan_extends [of "spec_batches pre @ [?d]" ?n x post'] obtain bs
      where "spec_scan (spec_batches pre @ [?d]) ?n x post' = (spec_batches pre @ [?d]) @ bs"
      by blast
    moreover have "spec_scan (spec_batches pre) ?d (last (c # run)) post =
                     spec_scan (spec_batches pre @ [?d]) ?n x post'"
      unfolding Cons using nj by (subst spec_scan.simps) simp
    ultimately show ?thesis by simp
  qed
  have start: "spec_batches (pre @ (c # run) @ post) =
                 spec_scan (spec_batches pre) ?e c (run @ post)"
  proof (cases pre)
    case Nil
    then show ?thesis by simp
  next
    case (Cons a pre')
    let ?a = "\<lparr>offset = 0, indicesToDraw = getIndexCount a, cmd = Some a\<rparr>"
    from spec_scan_append [of "[]" ?a a pre'] obtain f' b'
      where ap: "\<forall>ys. spec_scan [] ?a a (pre' @ ys) = spec_scan f' b' (last (a # pre')) ys"
        and off: "offset b' + indicesToDraw b' =
                    offset ?a + indicesToDraw ?a + sum_list (map getIndexCount pre')"
      by blast
    from ap [rule_format, of "[]"] have sp: "spec_batches pre = f' @ [b']"
      using Cons by simp
    have nj: "\<not> joins (last (a # pre')) c" using before Cons by simp
    have "spec_batches (pre @ (c # run) @ post) =
            spec_scan f' b' (last (a # pre')) (c # run @ post)"
      using ap [rule_format, of "(c # run) @ post"] Cons by simp
    also have "\<dots> = spec_scan (f' @ [b'])
        \<lparr>offset = offset b' + indicesToDraw b', indicesToDraw = getIndexCount c, cmd = Some c\<rparr>
        c (run @ post)"
      using nj by simp
    finally show ?thesis using sp off Cons by simp
  qed
  from spec_scan_run [OF run, of "spec_batches pre" ?e post] start d
  have "spec_batches (pre @ (c # run) @ post) =
          spec_scan (spec_batches pre) ?d (last (c # run)) post"
    by simp
  with tail show ?thesis by simp
qed
lemma run_in_context_is_one_batch:
  assumes q: "queuedTriangleCommands r = pre @ (c # run) @ post"
    and m: "\<forall>x\<in>set (tl (pre @ (c # run) @ post)). getMaterialID x \<noteq> - 1"
    and run: "\<not> isSkipBatching c"
      "\<forall>x\<in>set run. \<not> isSkipBatching x \<and> getMaterialID x = getMaterialID c"
    and before: "pre = [] \<or> \<not> joins (last pre) c"
    and after: "post = [] \<or> \<not> joins (last (c # run)) (hd post)"
  shows "\<exists>r' (rest :: tri_batch list). drawBatchedTriangles r = Inr r' \<and>
           glCalls r' = glCalls r @
             BufferData (sum_list (map getVertexCount (pre @ (c # run) @ post)))
                        (sum_list (map getIndexCount (pre @ (c # run) @ post))) #
             map (\<lambda>b. DrawElements (the (cmd b)) (indicesToDraw b) (offset b * 2)) (spec_batches pre) @
             DrawElements (last (c # run)) (sum_list (map getIndexCount (c # run)))
               (sum_list (map getIndexCount pre) * 2) #
             map (\<lambda>b. DrawElements (the (cmd b)) (indicesToDraw b) (offset b * 2)) rest"
proof -
  obtain x xs where x: "pre @ (c # run) @ post = x # xs"
    by (cases "pre @ (c # run) @ post") auto
  from spec_batches_run_in_context [OF run before after] obtain rest
    where s: "spec_batches (pre @ (c # run) @ post) =
           spec_batches pre @
           \<lparr>offset = sum_list (map getIndexCount pre),
            indicesToDraw = sum_list (map getIndexCount (c # run)),
            cmd = Some (last (c # run))\<rparr> # rest"
    by blast
  from flush_follows_rule [of r x xs] q m x obtain r'
    where "drawBatchedTriangles r = Inr r'"
      and "glCalls r' = glCalls r @
             BufferData (sum_list (map getVertexCount (x # xs))) (sum_list (map getIndexCount (x # xs))) #
             map (\<lambda>b. DrawElements (the (cmd b)) (indicesToDraw b) (offset b * 2))
               (spec_batches (x # xs))"
    by auto
  then have "drawBatchedTriangles r = Inr r' \<and>
           glCalls r' = glCalls r @
             BufferData (sum_list (map getVertexCount (pre @ (c # run) @ post)))
                        (sum_list (map getIndexCount (pre @ (c # run) @ post))) #
             map (\<lambda>b. DrawElements (the (cmd b)) (indicesToDraw b) (offset b * 2)) (spec_batches pre) @
             DrawElements (last (c # run)) (sum_list (map getIndexCount (c # run)))
               (sum_list (map getIndexCount pre) * 2) #
             map (\<lambda>b. DrawElements (the (cmd b)) (indicesToDraw b) (offset b * 2)) rest"
    unfolding x [symmetric] s by simp
  then show ?thesis by blast
qed

subsection \<open>The sweep returns when the nesting is within the depth\<close>

lemma and_then_result:
  assumes "x \<noteq> None" "\<And>r1. x = Some (Inr r1) \<Longrightarrow> f r1 \<noteq> None"
  shows "and_then x f \<noteq> None"
  using assms by (auto simp: and_then_def split: option.splits sum.splits)

lemma five_steps_result:
  assumes r: "\<And>g x. P x \<Longrightarrow> vg g x \<noteq> None"
    and k: "\<And>g x x'. vg g x = Some (Inr x') \<Longrightarrow> P x \<Longrightarrow> P x'"
    and p: "P x0"
  shows "and_then (vg g1 x0) (\<lambda>a.
         and_then (vg g2 a) (\<lambda>b.
         and_then (vg g3 b) (\<lambda>c.
         and_then (vg g4 c) (\<lambda>d.
         and_then (vg g5 d) (\<lambda>e. Some (Inr (fin e))))))) \<noteq> None"
proof (rule and_then_result [OF r [OF p]])
  fix a assume "vg g1 x0 = Some (Inr a)"
  note pa = k [OF this p]
  show "and_then (vg g2 a) (\<lambda>b.
         and_then (vg g3 b) (\<lambda>c.
         and_then (vg g4 c) (\<lambda>d.
         and_then (vg g5 d) (\<lambda>e. Some (Inr (fin e)))))) \<noteq> None"
  proof (rule and_then_result [OF r [OF pa]])
    fix b assume "vg g2 a = Some (Inr b)"
    note pb = k [OF this pa]
    show "and_then (vg g3 b) (\<lambda>c.
           and_then (vg g4 c) (\<lambda>d.
           and_then (vg g5 d) (\<lambda>e. Some (Inr (fin e))))) \<noteq> None"
    proof (rule and_then_result [OF r [OF pb]])
      fix c assume "vg g3 b = Some (Inr c)"
      note pc = k [OF this pb]
      show "and_then (vg g4 c) (\<lambda>d.
             and_then (vg g5 d) (\<lambda>e. Some (Inr (fin e)))) \<noteq> None"
      proof (rule and_then_result [OF r [OF pc]])
        fix d assume "vg g4 c = Some (Inr d)"
        note pd = k [OF this pc]
        show "and_then (vg g5 d) (\<lambda>e. Some (Inr (fin e))) \<noteq> None"
          by (rule and_then_result [OF r [OF pd]]) simp
      qed
    qed
  qed
qed

lemma visitRenderQueue_returns:
  assumes "nesting_within n (map commands (renderGroups r)) q"
  shows "visitRenderQueue n caps r q \<noteq> None"
  using assms
proof (induction n arbitrary: r q)
  case 0
  then show ?case by simp
next
  case (Suc n)
  let ?v = "visitRenderQueue n caps"
  let ?p = "processRenderCommand caps ?v"
  let ?C = "map commands (renderGroups r)"
  let ?i = "nat q"
  have v: "\<And>r q r'. ?v r q = Some (Inr r') \<Longrightarrow>
                nesting_within n (map commands (renderGroups r)) q \<and>
                changes_only (no_deeper (map commands (renderGroups r)) q) r r'"
    using visitRenderQueue_frame by blast
  have one: "?p x (Some c) \<noteq> None"
    if "getType c = GROUP_COMMAND \<longrightarrow>
          nesting_within n (map commands (renderGroups x)) (getRenderQueueID c)" for x c
  proof (cases "getType c = GROUP_COMMAND")
    case True
    show ?thesis
    proof (cases "drawBatchedTriangles x")
      case (Inl e)
      with True show ?thesis by (simp add: processRenderCommand_def flush_def)
    next
      case (Inr x1)
      have "renderGroups x1 = renderGroups x"
        using arg_cong [OF drawBatchedTriangles_frame [OF Inr, where g = "gl x" and k = "[]"
              and a = 0 and b = 0 and x = 0 and y = 0 and f = "triBatchesToDraw x" and q = "[]"],
            of renderGroups]
        by simp
      with that True Suc.IH [of x1 "getRenderQueueID c"] Inr show ?thesis
        by (simp add: processRenderCommand_def flush_def)
    qed
  next
    case False
    then show ?thesis
      by (cases "getType c")
        (auto simp: processRenderCommand_def and_then_def split: sum.splits)
  qed
  have all: "process_all ?p cs x \<noteq> None"
    if "\<forall>c\<in>set cs. getType c = GROUP_COMMAND \<longrightarrow>
          nesting_within n (map commands (renderGroups x)) (getRenderQueueID c)" for cs x
    using that
  proof (induction cs arbitrary: x)
    case Nil
    then show ?case by simp
  next
    case (Cons c cs)
    show ?case
      unfolding process_all.simps
    proof (rule and_then_result)
      show "?p x (Some c) \<noteq> None" using one Cons.prems by simp
    next
      fix x1 assume "?p x (Some c) = Some (Inr x1)"
      from process_one_frame [OF v this]
      have "map commands (renderGroups x1) = map commands (renderGroups x)"
        by (simp add: changes_only_def)
      with Cons.prems show "process_all ?p cs x1 \<noteq> None"
        by (intro Cons.IH) simp
    qed
  qed
  have grp: "visit_group ?p g ?i x \<noteq> None"
    if "map commands (renderGroups x) = ?C" for g x
  proof -
    from Suc.prems have q: "0 \<le> q" "?i < length ?C"
      and n: "\<forall>c\<in>set (all_commands (?C ! ?i)). getType c = GROUP_COMMAND \<longrightarrow>
                nesting_within n ?C (getRenderQueueID c)"
      by (simp_all add: list_all_iff)
    have l: "?i < length (renderGroups x)"
      using q(2) that map_eq_imp_length_eq [OF that] by simp
    have s: "commands (renderGroups x ! ?i) g = (?C ! ?i) g"
      using l that [symmetric] by simp
    have "set ((?C ! ?i) g) \<subseteq> set (all_commands (?C ! ?i))"
      by (cases g) (auto simp: all_commands_def QUEUE_GROUPS_def)
    with n have "\<forall>c\<in>set ((?C ! ?i) g). getType c = GROUP_COMMAND \<longrightarrow>
                nesting_within n ?C (getRenderQueueID c)" by blast
    then have "process_all ?p (commands (renderGroups x ! ?i) g)
                 (x\<lparr>gl := group_state g (isDepthTestFor2D x) (gl x)\<rparr>) \<noteq> None"
      using all [of "commands (renderGroups x ! ?i) g"
          "x\<lparr>gl := group_state g (isDepthTestFor2D x) (gl x)\<rparr>"] s that
      by simp
    then have "and_then (process_all ?p (commands (renderGroups x ! ?i) g)
                 (x\<lparr>gl := group_state g (isDepthTestFor2D x) (gl x)\<rparr>))
                 (\<lambda>r'. Some (flush r')) \<noteq> None"
      by (rule and_then_result) simp
    then show ?thesis
      by (simp add: visit_group_def Let_def)
  qed
  have keep: "map commands (renderGroups x') = ?C"
    if "visit_group ?p g ?i x = Some (Inr x')" "map commands (renderGroups x) = ?C" for g x x'
  proof -
    from Suc.prems have "?i < length ?C" by simp
    then have "?i < length (renderGroups x)"
      using map_eq_imp_length_eq [OF that(2)] by simp
    from visit_group_frame [OF v that(1) this] that(2) show ?thesis
      by (simp add: changes_only_def)
  qed
  from Suc.prems have q: "0 \<le> q" "?i < length (renderGroups r)" by simp_all
  let ?r0 = "r\<lparr>renderGroups := (renderGroups r)[?i := saveRenderState (gl r) (renderGroups r ! ?i)]\<rparr>"
  have c0: "map commands (renderGroups ?r0) = ?C"
    using map_commands_save [OF q(2)] by simp
  have "visit_body ?p r q \<noteq> None"
    unfolding visit_body_def Let_def using q
    by (simp only: if_not_P not_not conj_commute simp_thms if_False)
      (rule five_steps_result
        [where P = "\<lambda>x. map commands (renderGroups x) = ?C" and vg = "\<lambda>g. visit_group ?p g ?i",
          OF grp keep c0])
  then show ?case by simp
qed

text \<open>
  C7. A sweep that returns leaves the depth-test flag, the cull flag and the depth-write
  mask as they were when it began, whatever the dispatched commands did to them and
  however deep group commands nested further sweeps (each of which is a sweep in this
  sense). A sweep does return (normally or by an abort) when the group nesting of its
  queue is within the depth given to it. A \<open>render()\<close> over queues that hold no command
  returns with the GL flags and the log of GL work unchanged: it issues no draw call.
\<close>

theorem sweep_restores_state:
  "(visitRenderQueue depth caps r q = Some (Inr r') \<longrightarrow>
      DEPTH_TEST (gl r') = DEPTH_TEST (gl r) \<and>
      CULL_FACE (gl r') = CULL_FACE (gl r) \<and>
      DEPTH_WRITEMASK (gl r') = DEPTH_WRITEMASK (gl r))
   \<and> (nesting_within depth (map commands (renderGroups r)) q \<longrightarrow>
        visitRenderQueue depth caps r q \<noteq> None)
   \<and> (std_sort_contract srt \<and> renderGroups r \<noteq> [] \<and>
        list_all (\<lambda>qu. queue_size qu = 0) (renderGroups r) \<longrightarrow>
        (\<exists>r''. render (Suc depth) srt caps r = Some (Inr r'') \<and> gl r'' = gl r \<and>
                glCalls r'' = glCalls r))"
  using visitRenderQueue_frame [of depth caps r q r'] render_empty [of srt r depth caps]
    visitRenderQueue_returns [of depth r q caps]
  by blast

theorem sweep_restores_state_witness:
  "(\<exists>r'. visitRenderQueue (Suc (Suc 0)) example_limits nested_renderer 0 = Some (Inr r') \<and>
          glCalls r' = [Execute inverting_command] \<and>
          DEPTH_TEST (gl r') = DEPTH_TEST (gl nested_renderer) \<and>
          CULL_FACE (gl r') = CULL_FACE (gl nested_renderer) \<and>
          DEPTH_WRITEMASK (gl r') = DEPTH_WRITEMASK (gl nested_renderer))
   \<and> nesting_within (Suc (Suc 0)) (map commands (renderGroups nested_renderer)) 0
   \<and> std_sort_contract (insertion_sort False)
   \<and> renderGroups example_renderer \<noteq> []
   \<and> list_all (\<lambda>qu. queue_size qu = 0) (renderGroups example_renderer)
   \<and> (\<exists>r''. render (Suc 0) (insertion_sort False) example_limits example_renderer = Some (Inr r'') \<and>
             gl r'' = gl example_renderer \<and> glCalls r'' = [])"
proof -
  have "\<exists>r'. visitRenderQueue (Suc (Suc 0)) example_limits nested_renderer 0 = Some (Inr r') \<and>
          glCalls r' = [Execute inverting_command]"
    by (simp add: visit_body_def visit_group_def processRenderCommand_def flush_def
        drawBatchedTriangles_def run_execute_def push_back_def Let_def nested_renderer_def
        example_renderer_def example_queue_def new_queue_def group_command_def
        inverting_command_def example_command_def saveRenderState_def)
  then obtain r' where v: "visitRenderQueue (Suc (Suc 0)) example_limits nested_renderer 0 = Some (Inr r')"
    and c: "glCalls r' = [Execute inverting_command]" by blast
  from sweep_restores_state [of "Suc (Suc 0)" example_limits nested_renderer 0 r'] v
  have f: "DEPTH_TEST (gl r') = DEPTH_TEST (gl nested_renderer) \<and>
          CULL_FACE (gl r') = CULL_FACE (gl nested_renderer) \<and>
          DEPTH_WRITEMASK (gl r') = DEPTH_WRITEMASK (gl nested_renderer)"
    by blast
  have n: "nesting_within (Suc (Suc 0)) (map commands (renderGroups nested_renderer)) 0"
    by (simp add: all_commands_def QUEUE_GROUPS_def nested_renderer_def example_renderer_def
        push_back_def example_queue_def new_queue_def group_command_def inverting_command_def
        example_command_def Let_def)
  have h1: "std_sort_contract (insertion_sort False)" by (rule insertion_sort_contract)
  have h2: "renderGroups example_renderer \<noteq> []" by (simp add: example_renderer_def)
  have h3: "list_all (\<lambda>qu. queue_size qu = 0) (renderGroups example_renderer)"
    by (simp add: example_renderer_def new_queue_def queue_size_def QUEUE_GROUPS_def)
  have e: "glCalls example_renderer = []" by (simp add: example_renderer_def)
  from sweep_restores_state [of 0 example_limits example_renderer 0 example_renderer
      "insertion_sort False"] h1 h2 h3 e
  have "\<exists>r''. render (Suc 0) (insertion_sort False) example_limits example_renderer = Some (Inr r'') \<and>
             gl r'' = gl example_renderer \<and> glCalls r'' = []"
    by simp
  with v c f n h1 h2 h3 show ?thesis by blast
qed

subsection \<open>The draw order of a sweep\<close>

text \<open>
  The scan of the batcher copies the index lists of the staged commands one behind the
  other into the index array, and its batch entries lie one behind the other over the
  filled part; so the draw calls of a flush draw the index lists of the staged commands in
  the order in which they were staged, whatever the batches are.
\<close>

lemma index_range_append:
  assumes "0 \<le> n" "0 \<le> m"
  shows "index_range a (n + m) = index_range a n @ index_range (a + n) m"
proof -
  have "[0..<nat n + nat m] = [0..<nat n] @ map (\<lambda>i. i + nat n) [0..<nat m]"
    using upt_add_eq_append [of 0 "nat n" "nat m"] by (simp add: map_add_upt add.commute)
  then show ?thesis
    using assms by (simp add: index_range_def o_def nat_add_distrib add.commute add.left_commute)
qed

lemma index_range_bounds:
  assumes "k \<in> set (index_range a n)"
  shows "a \<le> k \<and> k < a + n"
  using assms by (auto simp: index_range_def)

lemma index_range_shift:
  "map (\<lambda>k. f (k - a)) (index_range a n) = map f (index_range 0 n)"
  by (simp add: index_range_def o_def)

lemma batch_step_indices:
  assumes "batch_step s c = Inr s'"
  shows "indices (pass_renderer s') =
           (\<lambda>k. if filledIndex (pass_renderer s) \<le> k \<and>
                    k < filledIndex (pass_renderer s) + getIndexCount c
                 then Some (c, k - filledIndex (pass_renderer s))
                 else indices (pass_renderer s) k)"
  using assms
  by (auto simp: batch_step_def fillVerticesAndIndices_def Let_def split: if_splits option.splits)

lemma batch_step_slots:
  assumes "batch_step s c = Inr s'" "0 \<le> filledIndex (pass_renderer s)" "0 \<le> getIndexCount c"
  shows "filled_slots (pass_renderer s') = filled_slots (pass_renderer s) @ slots_of c"
proof -
  let ?F = "filledIndex (pass_renderer s)"
  let ?n = "getIndexCount c"
  let ?ix = "\<lambda>k. if ?F \<le> k \<and> k < ?F + ?n then Some (c, k - ?F) else indices (pass_renderer s) k"
  have F': "filledIndex (pass_renderer s') = ?F + ?n" using batch_step_fill(2) [OF assms(1)] .
  have "map (\<lambda>k. Drawn (?ix k)) (index_range 0 ?F) =
        map (\<lambda>k. Drawn (indices (pass_renderer s) k)) (index_range 0 ?F)"
    by (intro map_cong) (auto dest: index_range_bounds)
  moreover have "map (\<lambda>k. Drawn (?ix k)) (index_range ?F ?n) =
        map (\<lambda>k. Drawn (Some (c, k - ?F))) (index_range ?F ?n)"
    by (intro map_cong) (auto dest: index_range_bounds)
  moreover have "map (\<lambda>k. Drawn (Some (c, k - ?F))) (index_range ?F ?n) = slots_of c"
    using index_range_shift [of "\<lambda>i. Drawn (Some (c, i))" ?F ?n] by (simp add: slots_of_def)
  ultimately show ?thesis
    using index_range_append [OF assms(2,3), of 0]
    by (simp add: filled_slots_def F' batch_step_indices [OF assms(1)])
qed

lemma batch_step_tiles:
  assumes "batch_step s c = Inr s'" "scan_inv s" "0 \<le> getIndexCount c"
  shows "scan_inv s'"
proof -
  let ?tb = "triBatchesToDraw (pass_renderer s)"
  let ?tb' = "triBatchesToDraw (pass_renderer s')"
  let ?n = "batchesTotal s"
  note inv = assms(2) [unfolded scan_inv_def Let_def]
  have F: "filledIndex (pass_renderer s') = filledIndex (pass_renderer s) + getIndexCount c"
    and f: "\<not> firstCommand s'"
    using batch_step_fill [OF assms(1)] by simp_all
  show ?thesis
  proof (cases "\<not> isSkipBatching c \<and> (prevMaterialID s = getMaterialID c \<or> firstCommand s)")
    case True
    from assms(1) True
    have n: "batchesTotal s' = ?n"
      and cur: "offset (?tb' ?n) = offset (?tb ?n)"
               "indicesToDraw (?tb' ?n) = indicesToDraw (?tb ?n) + getIndexCount c"
      and oth: "\<forall>i. i \<noteq> ?n \<longrightarrow> ?tb' i = ?tb i"
      by (auto simp: batch_step_def fillVerticesAndIndices_def Let_def split: if_splits option.splits)
    have m: "concat (map (\<lambda>i. index_range (offset (?tb' i)) (indicesToDraw (?tb' i))) [0..<?n]) =
             concat (map (\<lambda>i. index_range (offset (?tb i)) (indicesToDraw (?tb i))) [0..<?n])"
      using oth by (intro arg_cong [where f = concat] map_cong) auto
    show ?thesis
      unfolding scan_inv_def Let_def n using inv m cur f F assms(3) by simp
  next
    case False
    from batch_step_new [OF False] assms(1)
    have n: "batchesTotal s' = (if firstCommand s then ?n else ?n + 1)"
      and cur: "offset (?tb' (batchesTotal s')) =
                  (if firstCommand s then offset (?tb ?n) else offset (?tb ?n) + indicesToDraw (?tb ?n))"
               "indicesToDraw (?tb' (batchesTotal s')) = getIndexCount c"
      and oth: "\<forall>i. i \<noteq> batchesTotal s' \<longrightarrow> ?tb' i = ?tb i"
      by auto
    have m: "concat (map (\<lambda>i. index_range (offset (?tb' i)) (indicesToDraw (?tb' i)))
                       [0..<batchesTotal s']) =
             concat (map (\<lambda>i. index_range (offset (?tb i)) (indicesToDraw (?tb i)))
                       [0..<batchesTotal s'])"
      using oth by (intro arg_cong [where f = concat] map_cong) auto
    show ?thesis
    proof (cases "firstCommand s")
      case first: True
      then have n': "batchesTotal s' = ?n" using n by simp
      show ?thesis
        unfolding scan_inv_def Let_def using inv m cur f F assms(3) first
        unfolding n' by simp
    next
      case notfirst: False
      then have n': "batchesTotal s' = ?n + 1" using n by simp
      have "concat (map (\<lambda>i. index_range (offset (?tb' i)) (indicesToDraw (?tb' i))) [0..<?n + 1]) =
            concat (map (\<lambda>i. index_range (offset (?tb i)) (indicesToDraw (?tb i))) [0..<?n + 1])"
        using m unfolding n' .
      also have "\<dots> =
            index_range 0 (offset (?tb ?n)) @ index_range (offset (?tb ?n)) (indicesToDraw (?tb ?n))"
        using inv by simp
      also have "\<dots> = index_range 0 (offset (?tb ?n) + indicesToDraw (?tb ?n))"
        using inv index_range_append [of "offset (?tb ?n)" "indicesToDraw (?tb ?n)" 0] by simp
      finally have t: "concat (map (\<lambda>i. index_range (offset (?tb' i)) (indicesToDraw (?tb' i)))
                         [0..<?n + 1]) = index_range 0 (offset (?tb ?n) + indicesToDraw (?tb ?n))" .
      show ?thesis
        unfolding scan_inv_def Let_def using inv t cur f F assms(3) notfirst
        unfolding n' by simp
    qed
  qed
qed

lemma batch_loop_slots:
  assumes "batch_loop cs s = Inr s'" "0 \<le> filledIndex (pass_renderer s)" "scan_inv s"
    and "\<forall>c\<in>set cs. 0 \<le> getIndexCount c"
  shows "filled_slots (pass_renderer s') = filled_slots (pass_renderer s) @ concat (map slots_of cs) \<and>
         scan_inv s'"
  using assms
proof (induction cs arbitrary: s)
  case Nil
  then show ?case by simp
next
  case (Cons c cs)
  then obtain s1 where 1: "batch_step s c = Inr s1" and 2: "batch_loop cs s1 = Inr s'"
    by (auto split: sum.splits)
  have c: "0 \<le> getIndexCount c" and cs: "\<forall>c\<in>set cs. 0 \<le> getIndexCount c"
    using Cons.prems(4) by simp_all
  have F: "0 \<le> filledIndex (pass_renderer s1)"
    using batch_step_fill(2) [OF 1] Cons.prems(2) c by simp
  from Cons.IH [OF 2 F batch_step_tiles [OF 1 Cons.prems(3) c] cs]
    batch_step_slots [OF 1 Cons.prems(2) c]
  show ?case by simp
qed

lemma draw_loop_rendered:
  assumes "draw_loop bs r = Inr r'"
  shows "rendered r' = rendered r @
           map (\<lambda>k. Drawn (elementBuffer r k))
             (concat (map (\<lambda>b. index_range (offset b) (indicesToDraw b)) bs))"
  using assms
proof (induction bs arbitrary: r)
  case Nil
  then show ?case by simp
next
  case (Cons x bs)
  then obtain c where c: "cmd x = Some c" by (auto split: option.splits)
  with Cons.prems Cons.IH show ?case by fastforce
qed

lemma drawBatchedTriangles_rendered:
  assumes d: "drawBatchedTriangles r = Inr r'"
    and n: "\<forall>c\<in>set (queuedTriangleCommands r). 0 \<le> getIndexCount c"
  shows "rendered r' = rendered r @ concat (map slots_of (queuedTriangleCommands r))"
proof (cases "queuedTriangleCommands r = []")
  case True
  with d show ?thesis by (simp add: drawBatchedTriangles_def)
next
  case False
  let ?r0 = "r\<lparr>filledVertex := 0, filledIndex := 0,
               triBatchesToDraw :=
                 (triBatchesToDraw r)(0 := \<lparr>offset = 0, indicesToDraw = 0, cmd = None\<rparr>)\<rparr>"
  let ?s0 = "\<lparr>pass_renderer = ?r0, batchesTotal = 0, prevMaterialID = - 1, firstCommand = True\<rparr>"
  from d False obtain s where s: "batch_loop (queuedTriangleCommands r) ?s0 = Inr s"
    by (auto simp: drawBatchedTriangles_def Let_def split: sum.splits)
  let ?r1 = "pass_renderer s"
  let ?eb = "\<lambda>k. if 0 \<le> k \<and> k < filledIndex ?r1 then indices ?r1 k else None"
  let ?r2 = "?r1\<lparr>glCalls := glCalls ?r1 @ [BufferData (filledVertex ?r1) (filledIndex ?r1)],
             elementBuffer := ?eb\<rparr>"
  from d False s obtain r3
    where l: "draw_loop (map (triBatchesToDraw ?r2) [0..<batchesTotal s + 1]) ?r2 = Inr r3"
      and r': "r' = r3\<lparr>queuedTriangleCommands := [], filledVertex := 0, filledIndex := 0\<rparr>"
    by (auto simp: drawBatchedTriangles_def Let_def split: sum.splits)
  have i0: "scan_inv ?s0" "filled_slots ?r0 = []"
    by (simp_all add: scan_inv_def filled_slots_def index_range_def)
  from batch_loop_slots [OF s _ i0(1) n] i0(2)
  have slots: "filled_slots ?r1 = concat (map slots_of (queuedTriangleCommands r))"
    and inv: "scan_inv s"
    by simp_all
  note t = inv [unfolded scan_inv_def Let_def]
  have "concat (map (\<lambda>b. index_range (offset b) (indicesToDraw b))
                  (map (triBatchesToDraw ?r2) [0..<batchesTotal s + 1])) =
        index_range 0 (offset (triBatchesToDraw ?r1 (batchesTotal s))) @
        index_range (offset (triBatchesToDraw ?r1 (batchesTotal s)))
                    (indicesToDraw (triBatchesToDraw ?r1 (batchesTotal s)))"
    using t by (simp add: o_def)
  also have "\<dots> = index_range 0 (filledIndex ?r1)"
    using t index_range_append [of "offset (triBatchesToDraw ?r1 (batchesTotal s))"
        "indicesToDraw (triBatchesToDraw ?r1 (batchesTotal s))" 0]
    by simp
  finally have tiles: "concat (map (\<lambda>b. index_range (offset b) (indicesToDraw b))
                  (map (triBatchesToDraw ?r2) [0..<batchesTotal s + 1])) =
        index_range 0 (filledIndex ?r1)" .
  have "map (\<lambda>k. Drawn (?eb k)) (index_range 0 (filledIndex ?r1)) = filled_slots ?r1"
    unfolding filled_slots_def by (intro map_cong) (auto dest: index_range_bounds)
  with draw_loop_rendered [OF l, unfolded tiles]
  have "rendered r3 = rendered ?r1 @ filled_slots ?r1" by simp
  moreover have "rendered ?r1 = rendered r"
    using arg_cong [OF batch_loop_frame [OF s, where a = 0 and b = 0 and f = "triBatchesToDraw r"
          and ix = "indices r"], of rendered] by simp
  ultimately show ?thesis using r' slots by simp
qed

text \<open>
  Dispatching a command adds what the command draws behind what is drawn or staged
  already; \<open>visit\<close> is the nested sweep, of which the same is assumed.
\<close>

lemma drawBatchedTriangles_groups:
  assumes "drawBatchedTriangles r = Inr r'"
  shows "renderGroups r' = renderGroups r"
  using arg_cong [OF drawBatchedTriangles_frame [OF assms, where g = "gl r" and k = "glCalls r"
        and a = 0 and b = 0 and x = 0 and y = 0 and f = "triBatchesToDraw r" and q = "[]"
        and ix = "indices r" and eb = "elementBuffer r" and p = "[]"], of renderGroups]
  by simp

lemma dispatch_triangles:
  assumes "getType c = TRIANGLES_COMMAND"
    and "processRenderCommand caps visit r (Some c) = Some (Inr r')"
  shows "r' = queue_it r c \<or> (\<exists>r1. drawBatchedTriangles r = Inr r1 \<and> r' = queue_it r1 c)"
proof (cases "filledVertex r + getVertexCount c > VBO_SIZE caps
              \<or> filledIndex r + getIndexCount c > INDEX_VBO_SIZE caps")
  case False
  with assms show ?thesis by (simp add: processRenderCommand_def)
next
  case True
  with assms have "and_then (Some (drawBatchedTriangles r)) (\<lambda>r'. Some (Inr (queue_it r' c))) =
      Some (Inr r')"
    by (simp add: processRenderCommand_def split: if_splits)
  then show ?thesis by (cases "drawBatchedTriangles r") auto
qed

lemma dispatch_group:
  assumes "getType c = GROUP_COMMAND"
    and "processRenderCommand caps visit r (Some c) = Some (Inr r')"
  shows "\<exists>r1. drawBatchedTriangles r = Inr r1 \<and> visit r1 (getRenderQueueID c) = Some (Inr r')"
proof -
  from assms have "and_then (Some (flush r)) (\<lambda>r'. visit r' (getRenderQueueID c)) = Some (Inr r')"
    by (simp add: processRenderCommand_def)
  then show ?thesis by (cases "drawBatchedTriangles r") (auto simp: flush_def)
qed

lemma dispatch_execute:
  assumes "getType c = CUSTOM_COMMAND \<or> getType c = BATCH_COMMAND \<or> getType c = PRIMITIVE_COMMAND"
    and "processRenderCommand caps visit r (Some c) = Some (Inr r')"
  shows "\<exists>r1. drawBatchedTriangles r = Inr r1 \<and> r' = run_execute r1 c"
proof -
  from assms have "and_then (Some (flush r)) (\<lambda>r'. Some (Inr (run_execute r' c))) = Some (Inr r')"
    by (auto simp: processRenderCommand_def)
  then show ?thesis by (cases "drawBatchedTriangles r") (auto simp: flush_def)
qed

lemma flush_commits:
  assumes "drawBatchedTriangles r = Inr r1"
    and "\<forall>x\<in>set (queuedTriangleCommands r). 0 \<le> getIndexCount x"
  shows "rendered r1 = committed r" "queuedTriangleCommands r1 = []"
    "renderGroups r1 = renderGroups r"
proof -
  show "rendered r1 = committed r"
    using drawBatchedTriangles_rendered [OF assms] by (simp add: committed_def)
  show "queuedTriangleCommands r1 = []"
    using drawBatchedTriangles_empties(1) [OF assms(1)] .
  show "renderGroups r1 = renderGroups r"
    using drawBatchedTriangles_groups [OF assms(1)] .
qed

lemma process_one_paint:
  assumes v: "\<forall>r q r'. visit r q = Some (Inr r') \<and> queuedTriangleCommands r = [] \<and>
                map commands (renderGroups r) = CS \<longrightarrow>
                rendered r' = rendered r @ sub q \<and> queuedTriangleCommands r' = [] \<and>
                map commands (renderGroups r') = CS"
    and p: "processRenderCommand caps visit r (Some c) = Some (Inr r')"
    and st: "\<forall>x\<in>set (queuedTriangleCommands r). 0 \<le> getIndexCount x"
    and c: "getType c = TRIANGLES_COMMAND \<longrightarrow> 0 \<le> getIndexCount c"
    and g: "map commands (renderGroups r) = CS"
  shows "committed r' = committed r @ paint_of sub c \<and>
         (\<forall>x\<in>set (queuedTriangleCommands r'). 0 \<le> getIndexCount x) \<and>
         map commands (renderGroups r') = CS"
proof -
  consider (tri) "getType c = TRIANGLES_COMMAND"
    | (grp) "getType c = GROUP_COMMAND"
    | (exe) "getType c = CUSTOM_COMMAND \<or> getType c = BATCH_COMMAND \<or> getType c = PRIMITIVE_COMMAND"
    | (unk) "getType c = UNKNOWN_COMMAND"
    by (cases "getType c") auto
  then show ?thesis
  proof cases
    case tri
    from dispatch_triangles [OF tri p] show ?thesis
    proof
      assume "r' = queue_it r c"
      then show ?thesis
        using st c tri g by (simp add: committed_def queue_it_def paint_of_def)
    next
      assume "\<exists>r1. drawBatchedTriangles r = Inr r1 \<and> r' = queue_it r1 c"
      then obtain r1 where 1: "drawBatchedTriangles r = Inr r1" and 2: "r' = queue_it r1 c"
        by blast
      from flush_commits [OF 1 st] 2 show ?thesis
        using c tri g by (simp add: committed_def queue_it_def paint_of_def)
    qed
  next
    case grp
    from dispatch_group [OF grp p] obtain r1 where 1: "drawBatchedTriangles r = Inr r1"
      and 2: "visit r1 (getRenderQueueID c) = Some (Inr r')"
      by blast
    note f = flush_commits [OF 1 st]
    have e: "map commands (renderGroups r1) = CS" using f(3) g by simp
    from v 2 f(2) e
    have "rendered r' = rendered r1 @ sub (getRenderQueueID c) \<and> queuedTriangleCommands r' = [] \<and>
          map commands (renderGroups r') = CS"
      by blast
    with f(1) show ?thesis
      using grp by (simp add: committed_def paint_of_def)
  next
    case exe
    from dispatch_execute [OF exe p] obtain r1 where 1: "drawBatchedTriangles r = Inr r1"
      and 2: "r' = run_execute r1 c"
      by blast
    note f = flush_commits [OF 1 st]
    have t: "getType c \<noteq> TRIANGLES_COMMAND" "getType c \<noteq> GROUP_COMMAND" using exe by auto
    show ?thesis
      using f 2 g exe t by (simp add: committed_def run_execute_def paint_of_def)
  next
    case unk
    with p have "r' = r\<lparr>errorLog := errorLog r @ [''Unknown commands in renderQueue'']\<rparr>"
      by (simp add: processRenderCommand_def)
    then show ?thesis
      using st unk g by (simp add: committed_def paint_of_def)
  qed
qed

lemma process_all_paint:
  assumes v: "\<forall>r q r'. visit r q = Some (Inr r') \<and> queuedTriangleCommands r = [] \<and>
                map commands (renderGroups r) = CS \<longrightarrow>
                rendered r' = rendered r @ sub q \<and> queuedTriangleCommands r' = [] \<and>
                map commands (renderGroups r') = CS"
    and p: "process_all (processRenderCommand caps visit) cs r = Some (Inr r')"
    and st: "\<forall>x\<in>set (queuedTriangleCommands r). 0 \<le> getIndexCount x"
    and c: "\<forall>c\<in>set cs. getType c = TRIANGLES_COMMAND \<longrightarrow> 0 \<le> getIndexCount c"
    and g: "map commands (renderGroups r) = CS"
  shows "committed r' = committed r @ concat (map (paint_of sub) cs) \<and>
         (\<forall>x\<in>set (queuedTriangleCommands r'). 0 \<le> getIndexCount x) \<and>
         map commands (renderGroups r') = CS"
  using p st c g
proof (induction cs arbitrary: r)
  case Nil
  then show ?case by simp
next
  case (Cons x cs)
  from Cons.prems(1) obtain r1
    where 1: "processRenderCommand caps visit r (Some x) = Some (Inr r1)"
      and 2: "process_all (processRenderCommand caps visit) cs r1 = Some (Inr r')"
    by (auto simp: and_then_returns)
  have x: "getType x = TRIANGLES_COMMAND \<longrightarrow> 0 \<le> getIndexCount x"
    and cs: "\<forall>c\<in>set cs. getType c = TRIANGLES_COMMAND \<longrightarrow> 0 \<le> getIndexCount c"
    using Cons.prems(3) by simp_all
  from process_one_paint [OF v 1 Cons.prems(2) x Cons.prems(4)]
  have a: "committed r1 = committed r @ paint_of sub x"
    and b: "\<forall>x\<in>set (queuedTriangleCommands r1). 0 \<le> getIndexCount x"
    and d: "map commands (renderGroups r1) = CS"
    by simp_all
  from Cons.IH [OF 2 b cs d] a show ?case by simp
qed

lemma visit_group_paint:
  assumes v: "\<forall>r q r'. visit r q = Some (Inr r') \<and> queuedTriangleCommands r = [] \<and>
                map commands (renderGroups r) = CS \<longrightarrow>
                rendered r' = rendered r @ sub q \<and> queuedTriangleCommands r' = [] \<and>
                map commands (renderGroups r') = CS"
    and p: "visit_group (processRenderCommand caps visit) grp i r = Some (Inr r')"
    and e: "queuedTriangleCommands r = []"
    and c: "\<forall>c\<in>set (commands (renderGroups r ! i) grp).
              getType c = TRIANGLES_COMMAND \<longrightarrow> 0 \<le> getIndexCount c"
    and g: "map commands (renderGroups r) = CS"
  shows "rendered r' = rendered r @ concat (map (paint_of sub) (commands (renderGroups r ! i) grp)) \<and>
         queuedTriangleCommands r' = [] \<and> map commands (renderGroups r') = CS"
proof (cases "commands (renderGroups r ! i) grp = []")
  case True
  with p e g show ?thesis by (simp add: visit_group_def)
next
  case False
  let ?r = "r\<lparr>gl := group_state grp (isDepthTestFor2D r) (gl r)\<rparr>"
  from p False obtain r1
    where 1: "process_all (processRenderCommand caps visit) (commands (renderGroups r ! i) grp) ?r =
                Some (Inr r1)"
      and 2: "drawBatchedTriangles r1 = Inr r'"
    by (auto simp: visit_group_def Let_def and_then_returns flush_def)
  have st: "\<forall>x\<in>set (queuedTriangleCommands ?r). 0 \<le> getIndexCount x" using e by simp
  have g': "map commands (renderGroups ?r) = CS" using g by simp
  from process_all_paint [OF v 1 st c g']
  have a: "committed r1 = committed ?r @ concat (map (paint_of sub) (commands (renderGroups r ! i) grp))"
    and b: "\<forall>x\<in>set (queuedTriangleCommands r1). 0 \<le> getIndexCount x"
    and d: "map commands (renderGroups r1) = CS"
    by simp_all
  note f = flush_commits [OF 2 b]
  show ?thesis using f a d e by (simp add: committed_def)
qed

lemma counts_nonneg_at:
  assumes "counts_nonneg CS" "map commands qs = CS" "i < length qs"
  shows "\<forall>c\<in>set (commands (qs ! i) grp). getType c = TRIANGLES_COMMAND \<longrightarrow> 0 \<le> getIndexCount c"
proof -
  have "commands (qs ! i) = CS ! i" using assms(2,3) by auto
  moreover have "CS ! i \<in> set CS" using assms(2,3) by auto
  moreover have "set (commands (qs ! i) grp) \<subseteq> set (all_commands (commands (qs ! i)))"
    by (cases grp) (auto simp: all_commands_def QUEUE_GROUPS_def)
  ultimately show ?thesis
    using assms(1) unfolding counts_nonneg_def list_all_iff by (metis subsetD)
qed

lemma visit_body_paint:
  assumes v: "\<forall>r q r'. visit r q = Some (Inr r') \<and> queuedTriangleCommands r = [] \<and>
                map commands (renderGroups r) = CS \<longrightarrow>
                rendered r' = rendered r @ sub q \<and> queuedTriangleCommands r' = [] \<and>
                map commands (renderGroups r') = CS"
    and p: "visit_body (processRenderCommand caps visit) r qid = Some (Inr r')"
    and e: "queuedTriangleCommands r = []"
    and cn: "counts_nonneg CS"
    and g: "map commands (renderGroups r) = CS"
  shows "rendered r' = rendered r @ concat (map (paint_of sub) (all_commands (CS ! nat qid))) \<and>
         queuedTriangleCommands r' = [] \<and> map commands (renderGroups r') = CS"
proof -
  let ?i = "nat qid"
  let ?p = "processRenderCommand caps visit"
  let ?r0 = "r\<lparr>renderGroups := (renderGroups r)[?i := saveRenderState (gl r) (renderGroups r ! ?i)]\<rparr>"
  from p have q: "0 \<le> qid" "?i < length (renderGroups r)"
    by (auto simp: visit_body_def split: if_splits)
  from p q obtain r1 r2 r3 r4 r5
    where 1: "visit_group ?p GLOBALZ_NEG ?i ?r0 = Some (Inr r1)"
      and 2: "visit_group ?p OPAQUE_3D ?i r1 = Some (Inr r2)"
      and 3: "visit_group ?p TRANSPARENT_3D ?i r2 = Some (Inr r3)"
      and 4: "visit_group ?p GLOBALZ_ZERO ?i r3 = Some (Inr r4)"
      and 5: "visit_group ?p GLOBALZ_POS ?i r4 = Some (Inr r5)"
      and r': "r' = r5\<lparr>gl := restoreRenderState (renderGroups r5 ! ?i) (gl r5)\<rparr>"
    by (auto simp: visit_body_def Let_def and_then_returns)
  have g0: "map commands (renderGroups ?r0) = CS" "queuedTriangleCommands ?r0 = []"
    "rendered ?r0 = rendered r"
    using g q(2) e by (simp_all add: map_commands_save)
  have at: "\<And>x :: renderer. map commands (renderGroups x) = CS \<Longrightarrow> commands (renderGroups x ! ?i) = CS ! ?i"
  proof -
    fix x :: renderer assume m: "map commands (renderGroups x) = CS"
    then have "length (renderGroups x) = length (renderGroups r)"
      using g map_eq_imp_length_eq by metis
    with q(2) have "?i < length (renderGroups x)" by simp
    with m show "commands (renderGroups x ! ?i) = CS ! ?i" by auto
  qed
  have sz: "\<And>(x :: renderer) grp. map commands (renderGroups x) = CS \<Longrightarrow>
              \<forall>c\<in>set (commands (renderGroups x ! ?i) grp).
                 getType c = TRIANGLES_COMMAND \<longrightarrow> 0 \<le> getIndexCount c"
  proof -
    fix x :: renderer and grp assume m: "map commands (renderGroups x) = CS"
    then have "length (renderGroups x) = length (renderGroups r)"
      using g map_eq_imp_length_eq by metis
    with q(2) have "?i < length (renderGroups x)" by simp
    from counts_nonneg_at [OF cn m this]
    show "\<forall>c\<in>set (commands (renderGroups x ! ?i) grp).
                 getType c = TRIANGLES_COMMAND \<longrightarrow> 0 \<le> getIndexCount c" .
  qed
  note a1 = visit_group_paint [OF v 1 g0(2) sz [OF g0(1)] g0(1), unfolded at [OF g0(1)]]
  have m1: "map commands (renderGroups r1) = CS" and e1: "queuedTriangleCommands r1 = []"
    using a1 by simp_all
  note a2 = visit_group_paint [OF v 2 e1 sz [OF m1] m1, unfolded at [OF m1]]
  have m2: "map commands (renderGroups r2) = CS" and e2: "queuedTriangleCommands r2 = []"
    using a2 by simp_all
  note a3 = visit_group_paint [OF v 3 e2 sz [OF m2] m2, unfolded at [OF m2]]
  have m3: "map commands (renderGroups r3) = CS" and e3: "queuedTriangleCommands r3 = []"
    using a3 by simp_all
  note a4 = visit_group_paint [OF v 4 e3 sz [OF m3] m3, unfolded at [OF m3]]
  have m4: "map commands (renderGroups r4) = CS" and e4: "queuedTriangleCommands r4 = []"
    using a4 by simp_all
  note a5 = visit_group_paint [OF v 5 e4 sz [OF m4] m4, unfolded at [OF m4]]
  have "rendered r5 = rendered r @ concat (map (paint_of sub) (all_commands (CS ! ?i)))"
    using a1 a2 a3 a4 a5 g0(3) by (simp add: all_commands_def QUEUE_GROUPS_def)
  then show ?thesis using a5 r' by simp
qed

lemma visitRenderQueue_paint:
  assumes "visitRenderQueue n caps r q = Some (Inr r')" "queuedTriangleCommands r = []"
    and "counts_nonneg CS" "map commands (renderGroups r) = CS"
  shows "rendered r' = rendered r @ submission_order n CS q \<and>
         queuedTriangleCommands r' = [] \<and> map commands (renderGroups r') = CS"
  using assms
proof (induction n arbitrary: r q r')
  case 0
  then show ?case by simp
next
  case (Suc n)
  have v: "\<forall>r q r'. visitRenderQueue n caps r q = Some (Inr r') \<and> queuedTriangleCommands r = [] \<and>
                map commands (renderGroups r) = CS \<longrightarrow>
                rendered r' = rendered r @ submission_order n CS q \<and> queuedTriangleCommands r' = [] \<and>
                map commands (renderGroups r') = CS"
    using Suc.IH Suc.prems(3) by blast
  from Suc.prems(1)
  have p: "visit_body (processRenderCommand caps (visitRenderQueue n caps)) r q = Some (Inr r')"
    by simp
  from visit_body_paint [OF v p Suc.prems(2,3,4)] show ?case by simp
qed

subsection \<open>Commands that flush before they act\<close>

text \<open>
  C3, as the code has it. A group, custom, batch or primitive command first flushes: if
  the flush aborts, so does the dispatch; otherwise nothing is staged any more when the
  command acts, the draws of the flush come after everything logged before, what the
  flush draws is the index lists of the staged commands in the order in which they were
  staged, and the command's own effect (the nested sweep, or \<open>execute()\<close>) starts from
  the flushed renderer. (A command of the unknown kind does not flush, see the
  counterexample.) So, whenever a sweep that starts with nothing staged returns, what it
  has drawn is the commands of its queue in submission order, the queue of a group command
  in the place of the group command, and nothing is left staged. With a custom command
  between two quads of one material, each quad is uploaded and drawn by a draw call of
  its own, the first before and the second after the custom command.
\<close>

theorem barrier_kinds_flush_first:
  assumes "getType c = GROUP_COMMAND \<or> getType c = CUSTOM_COMMAND \<or>
           getType c = BATCH_COMMAND \<or> getType c = PRIMITIVE_COMMAND"
  shows "(\<forall>e. flush r = Inl e \<longrightarrow> processRenderCommand caps visit r (Some c) = Some (Inl e))
       \<and> (\<forall>r1. flush r = Inr r1 \<longrightarrow>
              queuedTriangleCommands r1 = [] \<and> (\<exists>evs. glCalls r1 = glCalls r @ evs) \<and>
              processRenderCommand caps visit r (Some c) =
                (if getType c = GROUP_COMMAND then visit r1 (getRenderQueueID c)
                 else Some (Inr (r1\<lparr>gl := execute c (gl r1), glCalls := glCalls r1 @ [Execute c],
                                   rendered := rendered r1 @ [Executed c]\<rparr>))))
       \<and> (\<forall>r1. flush r = Inr r1 \<and>
                 list_all (\<lambda>x. 0 \<le> getIndexCount x) (queuedTriangleCommands r) \<longrightarrow>
              rendered r1 = rendered r @ concat (map slots_of (queuedTriangleCommands r)))
       \<and> (\<forall>n s q s'. visitRenderQueue n caps s q = Some (Inr s') \<and>
                 queuedTriangleCommands s = [] \<and>
                 counts_nonneg (map commands (renderGroups s)) \<longrightarrow>
              rendered s' = rendered s @ submission_order n (map commands (renderGroups s)) q \<and>
              queuedTriangleCommands s' = [])
       \<and> (\<exists>r'. process_all (processRenderCommand example_limits (\<lambda>r q. None))
                  [example_command TRIANGLES_COMMAND 1, example_command CUSTOM_COMMAND 1,
                   example_command TRIANGLES_COMMAND 1] example_renderer = Some (Inr r') \<and>
                queuedTriangleCommands r' = [example_command TRIANGLES_COMMAND 1] \<and>
                glCalls r' =
                  [BufferData 4 6, DrawElements (example_command TRIANGLES_COMMAND 1) 6 0,
                   Execute (example_command CUSTOM_COMMAND 1)] \<and>
                (\<exists>r''. flush r' = Inr r'' \<and>
                   glCalls r'' =
                     [BufferData 4 6, DrawElements (example_command TRIANGLES_COMMAND 1) 6 0,
                      Execute (example_command CUSTOM_COMMAND 1),
                      BufferData 4 6, DrawElements (example_command TRIANGLES_COMMAND 1) 6 0] \<and>
                   rendered r'' =
                     slots_of (example_command TRIANGLES_COMMAND 1) @
                     [Executed (example_command CUSTOM_COMMAND 1)] @
                     slots_of (example_command TRIANGLES_COMMAND 1)))"
proof (intro conjI allI impI)
  fix e assume "flush r = Inl e"
  with assms show "processRenderCommand caps visit r (Some c) = Some (Inl e)"
    by (auto simp: processRenderCommand_def)
next
  fix r1 assume f: "flush r = Inr r1"
  then have d: "drawBatchedTriangles r = Inr r1" by (simp add: flush_def)
  show "queuedTriangleCommands r1 = []"
    using drawBatchedTriangles_empties(1) [OF d] .
  show "\<exists>evs. glCalls r1 = glCalls r @ evs"
  proof (cases "queuedTriangleCommands r = []")
    case True
    with drawBatchedTriangles_empties(3) [OF d] show ?thesis by simp
  next
    case False
    from drawBatchedTriangles_calls [OF d False] show ?thesis by blast
  qed
  show "processRenderCommand caps visit r (Some c) =
          (if getType c = GROUP_COMMAND then visit r1 (getRenderQueueID c)
           else Some (Inr (r1\<lparr>gl := execute c (gl r1), glCalls := glCalls r1 @ [Execute c],
                             rendered := rendered r1 @ [Executed c]\<rparr>)))"
    using assms f by (auto simp: processRenderCommand_def run_execute_def)
next
  fix r1
  assume a: "flush r = Inr r1 \<and>
             list_all (\<lambda>x. 0 \<le> getIndexCount x) (queuedTriangleCommands r)"
  then have d: "drawBatchedTriangles r = Inr r1"
    and n: "\<forall>c\<in>set (queuedTriangleCommands r). 0 \<le> getIndexCount c"
    by (simp_all add: flush_def list_all_iff)
  show "rendered r1 = rendered r @ concat (map slots_of (queuedTriangleCommands r))"
    using drawBatchedTriangles_rendered [OF d n] .
next
  fix n s q s'
  assume a: "visitRenderQueue n caps s q = Some (Inr s') \<and> queuedTriangleCommands s = [] \<and>
             counts_nonneg (map commands (renderGroups s))"
  then have 1: "visitRenderQueue n caps s q = Some (Inr s')" and 2: "queuedTriangleCommands s = []"
    and 3: "counts_nonneg (map commands (renderGroups s))"
    by simp_all
  from visitRenderQueue_paint [OF 1 2 3 refl]
  show "rendered s' = rendered s @ submission_order n (map commands (renderGroups s)) q"
    and "queuedTriangleCommands s' = []"
    by simp_all
next
  show "\<exists>r'. process_all (processRenderCommand example_limits (\<lambda>r q. None))
                  [example_command TRIANGLES_COMMAND 1, example_command CUSTOM_COMMAND 1,
                   example_command TRIANGLES_COMMAND 1] example_renderer = Some (Inr r') \<and>
                queuedTriangleCommands r' = [example_command TRIANGLES_COMMAND 1] \<and>
                glCalls r' =
                  [BufferData 4 6, DrawElements (example_command TRIANGLES_COMMAND 1) 6 0,
                   Execute (example_command CUSTOM_COMMAND 1)] \<and>
                (\<exists>r''. flush r' = Inr r'' \<and>
                   glCalls r'' =
                     [BufferData 4 6, DrawElements (example_command TRIANGLES_COMMAND 1) 6 0,
                      Execute (example_command CUSTOM_COMMAND 1),
                      BufferData 4 6, DrawElements (example_command TRIANGLES_COMMAND 1) 6 0] \<and>
                   rendered r'' =
                     slots_of (example_command TRIANGLES_COMMAND 1) @
                     [Executed (example_command CUSTOM_COMMAND 1)] @
                     slots_of (example_command TRIANGLES_COMMAND 1))"
    by (simp add: processRenderCommand_def queue_it_def run_execute_def flush_def
        drawBatchedTriangles_def batch_step_def fillVerticesAndIndices_def Let_def
        example_renderer_def example_command_def example_limits_def slots_of_def
        index_range_def)
qed

theorem barrier_kinds_flush_first_witness:
  "getType (example_command PRIMITIVE_COMMAND 1) = PRIMITIVE_COMMAND
   \<and> (\<exists>r1. flush (queue_it example_renderer (example_command TRIANGLES_COMMAND 1)) = Inr r1 \<and>
            queuedTriangleCommands r1 = [] \<and>
            rendered r1 = slots_of (example_command TRIANGLES_COMMAND 1) \<and>
            processRenderCommand example_limits (\<lambda>r q. None)
                (queue_it example_renderer (example_command TRIANGLES_COMMAND 1))
                (Some (example_command PRIMITIVE_COMMAND 1)) =
              Some (Inr (r1\<lparr>gl := execute (example_command PRIMITIVE_COMMAND 1) (gl r1),
                            glCalls := glCalls r1 @ [Execute (example_command PRIMITIVE_COMMAND 1)],
                            rendered := rendered r1 @
                              [Executed (example_command PRIMITIVE_COMMAND 1)]\<rparr>)))
   \<and> queuedTriangleCommands order_renderer = []
   \<and> counts_nonneg (map commands (renderGroups order_renderer))
   \<and> (\<exists>s'. visitRenderQueue 2 example_limits order_renderer 0 = Some (Inr s') \<and>
            queuedTriangleCommands s' = [] \<and>
            rendered s' =
              slots_of (example_command TRIANGLES_COMMAND 1) @
              [Executed (example_command CUSTOM_COMMAND 1)] @
              slots_of (example_command TRIANGLES_COMMAND 3) @
              slots_of (example_command TRIANGLES_COMMAND 2))"
proof -
  let ?c = "example_command PRIMITIVE_COMMAND 1"
  let ?t = "example_command TRIANGLES_COMMAND 1"
  let ?r = "queue_it example_renderer ?t"
  have k: "getType ?c = PRIMITIVE_COMMAND" by (simp add: example_command_def)
  then have a: "getType ?c = GROUP_COMMAND \<or> getType ?c = CUSTOM_COMMAND \<or>
           getType ?c = BATCH_COMMAND \<or> getType ?c = PRIMITIVE_COMMAND" by simp
  note t = barrier_kinds_flush_first [OF a, of ?r example_limits "\<lambda>r q. None"]
  have "\<exists>r1. flush ?r = Inr r1"
    by (simp add: flush_def queue_it_def drawBatchedTriangles_def batch_step_def
        fillVerticesAndIndices_def Let_def example_renderer_def example_command_def)
  then obtain r1 where f: "flush ?r = Inr r1" by blast
  have st: "list_all (\<lambda>x. 0 \<le> getIndexCount x) (queuedTriangleCommands ?r)"
    "rendered ?r = []" "queuedTriangleCommands ?r = [?t]"
    by (simp_all add: queue_it_def example_renderer_def example_command_def)
  from t f k
  have p1: "queuedTriangleCommands r1 = [] \<and>
        processRenderCommand example_limits (\<lambda>r q. None) ?r (Some ?c) =
          Some (Inr (r1\<lparr>gl := execute ?c (gl r1), glCalls := glCalls r1 @ [Execute ?c],
                        rendered := rendered r1 @ [Executed ?c]\<rparr>))"
    by simp
  from t f st(1)
  have "rendered r1 = rendered ?r @ concat (map slots_of (queuedTriangleCommands ?r))"
    by blast
  then have p2: "rendered r1 = slots_of ?t" unfolding st(2,3) by simp
  have e: "queuedTriangleCommands order_renderer = []"
    by (simp add: order_renderer_def example_renderer_def)
  have n: "counts_nonneg (map commands (renderGroups order_renderer))"
    by (simp add: counts_nonneg_def all_commands_def QUEUE_GROUPS_def Let_def
        order_renderer_def example_queue_def new_queue_def push_back_def group_command_def
        example_renderer_def example_command_def)
  have "\<exists>s'. visitRenderQueue 2 example_limits order_renderer 0 = Some (Inr s')"
    by (simp add: numeral_2_eq_2 visit_body_def visit_group_def processRenderCommand_def
        queue_it_def run_execute_def flush_def drawBatchedTriangles_def batch_step_def
        fillVerticesAndIndices_def Let_def order_renderer_def example_queue_def new_queue_def
        push_back_def group_command_def saveRenderState_def restoreRenderState_def
        example_renderer_def example_command_def example_limits_def)
  then obtain s' where v: "visitRenderQueue 2 example_limits order_renderer 0 = Some (Inr s')"
    by blast
  have o: "submission_order 2 (map commands (renderGroups order_renderer)) 0 =
      slots_of (example_command TRIANGLES_COMMAND 1) @ [Executed (example_command CUSTOM_COMMAND 1)] @
      slots_of (example_command TRIANGLES_COMMAND 3) @ slots_of (example_command TRIANGLES_COMMAND 2)"
    by (simp add: numeral_2_eq_2 paint_of_def all_commands_def QUEUE_GROUPS_def Let_def
        order_renderer_def example_queue_def new_queue_def push_back_def group_command_def
        example_renderer_def example_command_def)
  have r0: "rendered order_renderer = []"
    by (simp add: order_renderer_def example_renderer_def)
  from t v e n
  have "rendered s' = rendered order_renderer @
          submission_order 2 (map commands (renderGroups order_renderer)) 0 \<and>
        queuedTriangleCommands s' = []"
    by blast
  then have p3: "queuedTriangleCommands s' = [] \<and>
      rendered s' =
        slots_of (example_command TRIANGLES_COMMAND 1) @ [Executed (example_command CUSTOM_COMMAND 1)] @
        slots_of (example_command TRIANGLES_COMMAND 3) @ slots_of (example_command TRIANGLES_COMMAND 2)"
    unfolding o r0 by simp
  from k f p1 p2 e n v p3 show ?thesis by blast
qed

text \<open>
  The claim as worded covers every kind other than triangles, and so the unknown kind. A
  command of that kind between two quads of one material leaves both staged and nothing
  drawn; the next flush draws them together, as one batch of 12 indices.
\<close>

theorem unknown_kind_is_no_barrier:
  "getType (example_command UNKNOWN_COMMAND 1) \<noteq> TRIANGLES_COMMAND
   \<and> map_option logged_calls
         (process_all (processRenderCommand example_limits (\<lambda>r q. None))
            [example_command TRIANGLES_COMMAND 1, example_command UNKNOWN_COMMAND 1,
             example_command TRIANGLES_COMMAND 1] example_renderer) = Some (Inr [])
   \<and> map_option staged_commands
         (process_all (processRenderCommand example_limits (\<lambda>r q. None))
            [example_command TRIANGLES_COMMAND 1, example_command UNKNOWN_COMMAND 1,
             example_command TRIANGLES_COMMAND 1] example_renderer) =
       Some (Inr [example_command TRIANGLES_COMMAND 1, example_command TRIANGLES_COMMAND 1])
   \<and> map_option logged_calls
         (and_then
            (process_all (processRenderCommand example_limits (\<lambda>r q. None))
               [example_command TRIANGLES_COMMAND 1, example_command UNKNOWN_COMMAND 1,
                example_command TRIANGLES_COMMAND 1] example_renderer)
            (Some \<circ> flush)) =
       Some (Inr [BufferData 8 12, DrawElements (example_command TRIANGLES_COMMAND 1) 12 0])"
  by (simp add: processRenderCommand_def queue_it_def flush_def logged_calls_def
      staged_commands_def drawBatchedTriangles_def batch_step_def fillVerticesAndIndices_def
      Let_def example_renderer_def example_command_def example_limits_def)

end
